theory Spec2Isabelle
  imports Main "HOL-Library.Monad_Syntax" "HOL-Library.Sublist"
begin

section \<open>JavaScript strings\<close>

text \<open>
  A JavaScript string is a sequence of UTF-16 code units. The development covers texts
  whose code units are below 256 (the Latin-1 range), which is what \<^typ>\<open>char\<close> holds:
  \<open>length\<close> then counts what \<open>.length\<close> counts, and the section sign is \<open>CHR 0xA7\<close>.
  The en dash U+2013, which two character classes of \<open>ingest-codes.js\<close> accept next to
  the hyphen, lies outside this range and so never occurs in a modelled text.
\<close>

definition is_space :: "char \<Rightarrow> bool" where
  \<comment> \<open>\<open>\s\<close> and the characters \<open>trim()\<close> strips: TAB, LF, VT, FF, CR, space, NBSP\<close>
  "is_space c = (let n = (of_char c :: nat) in (9 \<le> n \<and> n \<le> 13) \<or> n = 32 \<or> n = 160)"

definition is_digit :: "char \<Rightarrow> bool" where
  \<comment> \<open>\<open>\d\<close>\<close>
  "is_digit c = (let n = (of_char c :: nat) in 48 \<le> n \<and> n \<le> 57)"

definition is_upper :: "char \<Rightarrow> bool" where
  \<comment> \<open>\<open>[A-Z]\<close>\<close>
  "is_upper c = (let n = (of_char c :: nat) in 65 \<le> n \<and> n \<le> 90)"

definition is_word :: "char \<Rightarrow> bool" where
  \<comment> \<open>\<open>\w\<close>, that is \<open>[A-Za-z0-9_]\<close>\<close>
  "is_word c = (let n = (of_char c :: nat) in
     (48 \<le> n \<and> n \<le> 57) \<or> (65 \<le> n \<and> n \<le> 90) \<or> n = 95 \<or> (97 \<le> n \<and> n \<le> 122))"

definition ascii_lower :: "char \<Rightarrow> char" where
  \<comment> \<open>the case folding of SQLite's \<open>LIKE\<close>: ASCII letters only\<close>
  "ascii_lower c = (let n = (of_char c :: nat) in
     if 65 \<le> n \<and> n \<le> 90 then char_of (n + 32) else c)"

definition js_lower :: "char \<Rightarrow> char" where
  \<comment> \<open>\<open>toLowerCase\<close> on one Latin-1 code unit: A-Z and U+00C0..U+00DE except U+00D7\<close>
  "js_lower c = (let n = (of_char c :: nat) in
     if (65 \<le> n \<and> n \<le> 90) \<or> (192 \<le> n \<and> n \<le> 222 \<and> n \<noteq> 215)
     then char_of (n + 32) else c)"

definition toLowerCase :: "string \<Rightarrow> string" where
  "toLowerCase s = map js_lower s"

definition trim :: "string \<Rightarrow> string" where
  "trim s = rev (dropWhile is_space (rev (dropWhile is_space s)))"

definition js_slice :: "string \<Rightarrow> int \<Rightarrow> int \<Rightarrow> string" where
  \<comment> \<open>\<open>s.slice(a, b)\<close>: a negative index counts from the end, both are clamped\<close>
  "js_slice s a b =
     (let n = int (length s);
          from = (if a < 0 then max (n + a) 0 else min a n);
          upto = (if b < 0 then max (n + b) 0 else min b n)
      in take (nat (upto - from)) (drop (nat from) s))"

fun js_join :: "string \<Rightarrow> string list \<Rightarrow> string" where
  "js_join sep [] = []"
| "js_join sep [x] = x"
| "js_join sep (x # y # ys) = x @ sep @ js_join sep (y # ys)"

fun split_ws :: "bool \<Rightarrow> string \<Rightarrow> string \<Rightarrow> string list" where
  \<comment> \<open>the loop of \<open>s.split(/\s+/)\<close>: the flag says that a separator run is being skipped,
      the accumulator holds the current piece reversed\<close>
  "split_ws insep acc [] = [rev acc]"
| "split_ws insep acc (c # cs) =
     (if is_space c then
        (if insep then split_ws True acc cs else rev acc # split_ws True [] cs)
      else split_ws False (c # acc) cs)"

definition js_split_ws :: "string \<Rightarrow> string list" where
  \<comment> \<open>\<open>s.split(/\s+/)\<close>; leading and trailing separators give empty pieces\<close>
  "js_split_ws s = split_ws False [] s"

fun split_on :: "char \<Rightarrow> string \<Rightarrow> string \<Rightarrow> string list" where
  "split_on d acc [] = [rev acc]"
| "split_on d acc (c # cs) =
     (if c = d then rev acc # split_on d [] cs else split_on d (c # acc) cs)"

definition js_split_char :: "char \<Rightarrow> string \<Rightarrow> string list" where
  \<comment> \<open>\<open>s.split(d)\<close> for a one-character separator\<close>
  "js_split_char d s = split_on d [] s"

definition digit_char :: "nat \<Rightarrow> char" where
  "digit_char d = ''0123456789'' ! d"

fun show_nat :: "nat \<Rightarrow> string" where
  \<comment> \<open>the decimal rendering of a non-negative integer in a template literal\<close>
  "show_nat n = (if n < 10 then [digit_char n]
                 else show_nat (n div 10) @ [digit_char (n mod 10)])"

declare show_nat.simps [simp del]

subsection \<open>Regular expressions as prefix matchers\<close>

text \<open>
  A matcher consumes a prefix of its input and returns the rest, or fails. The
  repetitions below are greedy and never give characters back. Every regular expression of
  the source that is modelled with them follows a repetition by a character that the
  repeated class excludes, so backtracking could not find another match.
\<close>

type_synonym matcher = "string \<Rightarrow> string option"

fun lit :: "string \<Rightarrow> matcher" where
  \<comment> \<open>a literal\<close>
  "lit [] s = Some s"
| "lit (w # ws) [] = None"
| "lit (w # ws) (c # cs) = (if c = w then lit ws cs else None)"

fun lit_i :: "string \<Rightarrow> matcher" where
  \<comment> \<open>a literal under the \<open>i\<close> flag\<close>
  "lit_i [] s = Some s"
| "lit_i (w # ws) [] = None"
| "lit_i (w # ws) (c # cs) = (if js_lower c = js_lower w then lit_i ws cs else None)"

definition one :: "(char \<Rightarrow> bool) \<Rightarrow> matcher" where
  "one P s = (case s of [] \<Rightarrow> None | c # r \<Rightarrow> if P c then Some r else None)"

definition opt :: "(char \<Rightarrow> bool) \<Rightarrow> matcher" where
  \<comment> \<open>\<open>X?\<close>\<close>
  "opt P s = (case s of [] \<Rightarrow> Some [] | c # r \<Rightarrow> if P c then Some r else Some (c # r))"

definition many :: "(char \<Rightarrow> bool) \<Rightarrow> matcher" where
  \<comment> \<open>\<open>X*\<close>\<close>
  "many P s = Some (dropWhile P s)"

definition many1 :: "(char \<Rightarrow> bool) \<Rightarrow> matcher" where
  \<comment> \<open>\<open>X+\<close>\<close>
  "many1 P s = (case s of [] \<Rightarrow> None | c # r \<Rightarrow> if P c then Some (dropWhile P r) else None)"

definition matches :: "string option \<Rightarrow> bool" where
  "matches r = (r \<noteq> None)"

fun re_test :: "(string \<Rightarrow> bool) \<Rightarrow> string \<Rightarrow> bool" where
  \<comment> \<open>\<open>regex.test(s)\<close> for an unanchored expression: a match at some position\<close>
  "re_test re [] = re []"
| "re_test re (c # cs) = (re (c # cs) \<or> re_test re cs)"

definition alt_i :: "string list \<Rightarrow> string \<Rightarrow> bool" where
  \<comment> \<open>an alternation of literals under the \<open>i\<close> flag, matched at the start of the input\<close>
  "alt_i ws s = list_ex (\<lambda>w. matches (lit_i w s)) ws"

section \<open>Segmentation (ingest-codes.js)\<close>

record provision =
  source :: "string option"
  chapter_ref :: "string option"
  chapter_title :: "string option"
  section_ref :: "string option"
  section_title :: "string option"
  content :: "string option"
  summary :: "string option"
  pdf_url :: "string option"
  keywords_f :: "string option"

text \<open>
  The fields are the properties \<open>source\<close>, \<open>chapter\<close>, \<open>chapter_title\<close>, \<open>section\<close>,
  \<open>section_title\<close>, \<open>content\<close>, \<open>summary\<close>, \<open>pdf_url\<close> and \<open>keywords\<close> of the
  objects the chunker builds; \<open>None\<close> is \<open>null\<close> or a missing property.
\<close>

definition re_section_sign :: "string \<Rightarrow> bool" where
  \<comment> \<open>\<open>\<section>\s*\d+[\-]\d+\<close>, whose class also holds U+2013\<close>
  "re_section_sign s = matches (lit [CHR 0xA7] s \<bind> many is_space \<bind> many1 is_digit
                                  \<bind> one (\<lambda>c. c = CHR ''-'') \<bind> many1 is_digit)"

definition re_article :: "string \<Rightarrow> bool" where
  \<comment> \<open>\<open>ARTICLE\s+[IVXLC]+\<close> with the \<open>i\<close> flag\<close>
  "re_article s = matches (lit_i ''ARTICLE'' s \<bind> many1 is_space
                             \<bind> many1 (\<lambda>c. js_lower c \<in> set ''ivxlc''))"

definition re_dotted :: "string \<Rightarrow> bool" where
  \<comment> \<open>\<open>\d+\.\d+\.\d+\<close>\<close>
  "re_dotted s = matches (many1 is_digit s \<bind> one (\<lambda>c. c = CHR ''.'') \<bind> many1 is_digit
                            \<bind> one (\<lambda>c. c = CHR ''.'') \<bind> many1 is_digit)"

definition re_enum :: "string \<Rightarrow> bool" where
  \<comment> \<open>\<open>\n\s*\(\d+\)\s+[A-Z]\<close>\<close>
  "re_enum s = matches (one (\<lambda>c. c = CHR 0x0A) s \<bind> many is_space
                          \<bind> one (\<lambda>c. c = CHR ''('') \<bind> many1 is_digit
                          \<bind> one (\<lambda>c. c = CHR '')'') \<bind> many1 is_space \<bind> one is_upper)"

definition sectionPatterns :: "(string \<Rightarrow> bool) list" where
  "sectionPatterns = [re_section_sign, re_article, re_dotted, re_enum]"

fun split_lookahead :: "(string \<Rightarrow> bool) \<Rightarrow> string \<Rightarrow> string \<Rightarrow> string list" where
  \<comment> \<open>\<open>text.split(/(?=re)/)\<close>: the text is cut before every position other than 0 at which
      the expression matches; nothing is consumed\<close>
  "split_lookahead re acc [] = [rev acc]"
| "split_lookahead re acc (c # cs) =
     (if acc \<noteq> [] \<and> re (c # cs) then rev acc # split_lookahead re [c] cs
      else split_lookahead re (c # acc) cs)"

definition splits_of :: "(string \<Rightarrow> bool) \<Rightarrow> string \<Rightarrow> string list" where
  \<comment> \<open>\<open>text.split(pattern).filter(s => s.trim().length > 30)\<close>\<close>
  "splits_of re text = filter (\<lambda>s. length (trim s) > 30) (split_lookahead re [] text)"

definition try_pattern :: "string \<Rightarrow> string list \<Rightarrow> (string \<Rightarrow> bool) \<Rightarrow> string list" where
  \<comment> \<open>one round of the loop over \<open>sectionPatterns\<close>\<close>
  "try_pattern text sections re =
     (let splits = splits_of re text
      in if length splits > length sections \<and> length splits < 200 then splits else sections)"

definition select_sections :: "string \<Rightarrow> string list" where
  "select_sections text = foldl (try_pattern text) [text] sectionPatterns"

partial_function (option) chunkLoop ::
  "string \<Rightarrow> int \<Rightarrow> int \<Rightarrow> int \<Rightarrow> string list \<Rightarrow> string list option" where
  "chunkLoop text chunkSize overlap start chunks =
     (if start < int (length text) then
        (let end = min (start + chunkSize) (int (length text));
             chunks' = chunks @ [js_slice text start end];
             start' = end - overlap
         in if start' \<ge> int (length text) - overlap then Some chunks'
            else chunkLoop text chunkSize overlap start' chunks')
      else Some chunks)"

declare chunkLoop.simps [code]

definition chunkBySize :: "string \<Rightarrow> int \<Rightarrow> int \<Rightarrow> string list option" where
  \<comment> \<open>\<open>None\<close>: the loop does not return\<close>
  "chunkBySize text chunkSize overlap = chunkLoop text chunkSize overlap 0 []"

definition keyword_patterns :: "(string \<times> string list) list" where
  \<comment> \<open>the \<open>patterns\<close> object of \<open>extractKeywords\<close>, in its order; every expression is an
      alternation of literals with the \<open>i\<close> flag\<close>
  "keyword_patterns =
    [(''parking'', [''parking'', ''garage'', ''vehicle storage'']),
     (''noise'', [''noise'', ''sound'', ''decibel'', ''quiet'']),
     (''height'', [''height'', ''storey'', ''angular plane'', ''setback'']),
     (''density'', [''density'', ''floor area'', ''FSI'', ''units per'']),
     (''transit'', [''transit'', ''TTC'', ''streetcar'', ''bus'', ''subway'', ''LRT'']),
     (''cycling'', [''bicycle'', ''cycling'', ''bike lane'', ''bike parking'']),
     (''pedestrian'', [''pedestrian'', ''sidewalk'', ''crosswalk'', ''walkway'']),
     (''snow'', [''snow'', ''ice'', ''winter'', ''plow'', ''windrow'']),
     (''fence'', [''fence'', ''enclosure'', ''barrier'']),
     (''tree'', [''tree'', ''canopy'', ''urban forest'']),
     (''heritage'', [''heritage'', ''conservation'', ''historic'']),
     (''sign'', [''sign'', ''billboard'', ''advertising'']),
     (''waste'', [''waste'', ''garbage'', ''recycling'', ''bin'']),
     (''water'', [''water'', ''sewer'', ''drainage'', ''stormwater'']),
     (''housing'', [''housing'', ''dwelling'', ''residential'', ''apartment'', ''multiplex'']),
     (''commercial'', [''commercial'', ''retail'', ''restaurant'', ''business'']),
     (''property'', [''property'', ''land'', ''lot'', ''zoning'']),
     (''permit'', [''permit'', ''licence'', ''license'', ''application'']),
     (''construction'', [''construction'', ''demolition'', ''building'']),
     (''accessibility'', [''accessibility'', ''accessible'', ''barrier-free'']),
     (''fire'', [''fire'', ''safety'', ''emergency'', ''smoke'']),
     (''boulevard'', [''boulevard'', ''right-of-way'', ''road allowance'']),
     (''animal'', [''animal'', ''dog'', ''pet'', ''cat'']),
     (''food'', [''food'', ''restaurant'', ''patio'', ''cafe'']),
     (''rental'', [''rental'', ''tenant'', ''landlord'', ''eviction'']),
     (''development'', [''development'', ''site plan'', ''subdivision'']),
     (''setback'', [''setback'', ''yard'', ''front yard'', ''rear yard'', ''side yard'']),
     (''laneway'', [''laneway'', ''lane'', ''alley'', ''rear lane''])]"

definition extractKeywords :: "string \<Rightarrow> string" where
  "extractKeywords text =
     (let t = toLowerCase text
      in js_join '', '' (map fst (filter (\<lambda>(keyword, alts). re_test (alt_i alts) t)
                                        keyword_patterns)))"

definition is_ref_char :: "char \<Rightarrow> bool" where
  \<comment> \<open>\<open>[\d\-.]\<close>, which also holds U+2013\<close>
  "is_ref_char c = (is_digit c \<or> c = CHR ''-'' \<or> c = CHR ''.'')"

definition sectionMatch :: "string \<Rightarrow> string option" where
  \<comment> \<open>group 1 of \<open>content.match(/^\<section>?\s*([\d\-.]+)/)\<close> (the class also holds U+2013)\<close>
  "sectionMatch text =
     (opt (\<lambda>c. c = CHR 0xA7) text \<bind> many is_space \<bind>
        (\<lambda>r. if takeWhile is_ref_char r = [] then None else Some (takeWhile is_ref_char r)))"

definition section_of :: "string \<Rightarrow> string option" where
  \<comment> \<open>\<open>sectionMatch ? sectionMatch[1].trim() : null\<close>, as tested by \<open>section ? .. : ..\<close>:
      an empty string counts as absent\<close>
  "section_of text =
     (case sectionMatch text of None \<Rightarrow> None
      | Some g \<Rightarrow> if trim g = [] then None else Some (trim g))"

definition sectionTitle_of :: "string \<Rightarrow> string option" where
  "sectionTitle_of text =
     (case js_split_char (CHR 0x0A) (trim text) of
        [] \<Rightarrow> None
      | line # _ \<Rightarrow>
          (let firstLine = trim line
           in if firstLine \<noteq> [] \<and> length firstLine < 120 then Some firstLine else None))"

definition make_provision ::
  "string \<Rightarrow> string \<Rightarrow> string \<Rightarrow> string \<Rightarrow> nat \<times> string \<Rightarrow> provision" where
  \<comment> \<open>the callback of \<open>sections.map((content, i) => ..)\<close>\<close>
  "make_provision src chap chapterTitle pdfUrl ic =
     (case ic of (i, text) \<Rightarrow>
       \<lparr> source = Some src,
         chapter_ref = Some chap,
         chapter_title = Some chapterTitle,
         section_ref = Some (case section_of text of
                               Some sec \<Rightarrow> chap @ ''-'' @ sec
                             | None \<Rightarrow> chap @ '' (Part '' @ show_nat (i + 1) @ '')''),
         section_title = sectionTitle_of text,
         content = Some (js_slice (trim text) 0 3000),
         summary = None,
         pdf_url = Some pdfUrl,
         keywords_f = Some (extractKeywords text) \<rparr>)"

definition content_length :: "provision \<Rightarrow> nat" where
  "content_length p = (case content p of None \<Rightarrow> 0 | Some c \<Rightarrow> length c)"

definition final_sections :: "string \<Rightarrow> string list option" where
  \<comment> \<open>\<open>sections\<close> when the map over it starts\<close>
  "final_sections text =
     (let sections = select_sections text
      in if length sections \<le> 1 \<and> length text > 2000 then chunkBySize text 1500 200
         else Some sections)"

definition provisions_of ::
  "string \<Rightarrow> string \<Rightarrow> string \<Rightarrow> string \<Rightarrow> string list \<Rightarrow> provision list" where
  \<comment> \<open>\<open>provisions\<close>, the result of \<open>sections.map\<close>, before the final filter\<close>
  "provisions_of src chap chapterTitle pdfUrl sections =
     map (make_provision src chap chapterTitle pdfUrl) (enumerate 0 sections)"

definition extractAndChunk ::
  "string option \<Rightarrow> string \<Rightarrow> string \<Rightarrow> string \<Rightarrow> string \<Rightarrow> provision list option" where
  \<comment> \<open>The first argument is what \<open>pdfParse\<close> gave as \<open>parsed.text\<close>, \<open>None\<close> when it
      threw. The result \<open>None\<close> stands for a call that does not return.\<close>
  "extractAndChunk parsed src chap chapterTitle pdfUrl =
     (case parsed of
        None \<Rightarrow> Some []
      | Some text \<Rightarrow>
          if text = [] \<or> length text < 50 then Some []
          else final_sections text \<bind>
            (\<lambda>sections. Some (filter (\<lambda>p. content_length p > 50)
               (provisions_of src chap chapterTitle pdfUrl sections))))"

section \<open>The index store (codes-db.js)\<close>

datatype error =
    ConstraintError | EngineError | FtsError | FetchError | DatatypeMismatch | ExpressionTooLarge

record row =
  rowid :: nat
  data :: provision

record log_entry =
  log_source :: string
  log_chapter :: string
  provisions_count :: nat

record store =
  provisions :: "row list"
  seq :: nat
  ingestion_log :: "log_entry list"

text \<open>
  \<open>provisions\<close> is the table of that name in storage order, without its two time
  stamps; \<open>seq\<close> is the counter that \<open>AUTOINCREMENT\<close> keeps. The full-text index is
  maintained by triggers from the table, so it holds the same rows.
\<close>

definition or_null :: "string option \<Rightarrow> string option" where
  \<comment> \<open>\<open>x || null\<close> on a string property\<close>
  "or_null x = (case x of None \<Rightarrow> None | Some s \<Rightarrow> if s = [] then None else Some s)"

definition js_truthy :: "string option \<Rightarrow> bool" where
  \<comment> \<open>\<open>if (x)\<close> on a string or \<open>null\<close>\<close>
  "js_truthy x = (case x of None \<Rightarrow> False | Some s \<Rightarrow> s \<noteq> [])"

definition bind_values :: "provision \<Rightarrow> provision" where
  \<comment> \<open>the object handed to \<open>insert.run\<close> in \<open>bulkInsert\<close>\<close>
  "bind_values item =
     \<lparr> source = source item,
       chapter_ref = chapter_ref item,
       chapter_title = chapter_title item,
       section_ref = or_null (section_ref item),
       section_title = or_null (section_title item),
       content = content item,
       summary = or_null (summary item),
       pdf_url = or_null (pdf_url item),
       keywords_f = or_null (keywords_f item) \<rparr>"

definition next_rowid :: "store \<Rightarrow> nat" where
  "next_rowid db = Suc (max (seq db) (foldr max (map rowid (provisions db)) 0))"

definition insert_run :: "(provision \<Rightarrow> bool) \<Rightarrow> store \<Rightarrow> provision \<Rightarrow> error + store" where
  \<comment> \<open>One \<open>INSERT INTO provisions\<close>. It throws on the \<open>NOT NULL\<close> columns \<open>source\<close> and
      \<open>content\<close>; \<open>refuses\<close> stands for every other reason the engine has to reject the
      record. A statement that throws leaves the store as it was.\<close>
  "insert_run refuses db v =
     (if source v = None \<or> content v = None then Inl ConstraintError
      else if refuses v then Inl EngineError
      else Inr (db\<lparr> provisions := provisions db @ [\<lparr> rowid = next_rowid db, data = v \<rparr>],
                   seq := next_rowid db \<rparr>))"

fun insert_items ::
  "(provision \<Rightarrow> bool) \<Rightarrow> store \<Rightarrow> provision list \<Rightarrow> error option \<times> store" where
  \<comment> \<open>the \<open>for (const item of items)\<close> loop; it stops at the first statement that throws\<close>
  "insert_items refuses db [] = (None, db)"
| "insert_items refuses db (item # items) =
     (case insert_run refuses db (bind_values item) of
        Inl e \<Rightarrow> (Some e, db)
      | Inr db' \<Rightarrow> insert_items refuses db' items)"

definition transaction ::
  "(store \<Rightarrow> error option \<times> store) \<Rightarrow> store \<Rightarrow> error option \<times> store" where
  \<comment> \<open>\<open>db.transaction(fn)\<close>: commit when \<open>fn\<close> returns, roll back and rethrow when it throws\<close>
  "transaction fn db =
     (case fn db of (None, db') \<Rightarrow> (None, db') | (Some e, db') \<Rightarrow> (Some e, db))"

definition bulkInsert ::
  "(provision \<Rightarrow> bool) \<Rightarrow> store \<Rightarrow> provision list \<Rightarrow> (error + nat) \<times> store" where
  "bulkInsert refuses db items =
     (case transaction (\<lambda>d. insert_items refuses d items) db of
        (Some e, db') \<Rightarrow> (Inl e, db')
      | (None, db') \<Rightarrow> (Inr (length items), db'))"

definition isIngested :: "store \<Rightarrow> string \<Rightarrow> string \<Rightarrow> bool" where
  "isIngested db src chap =
     list_ex (\<lambda>e. log_source e = src \<and> log_chapter e = chap) (ingestion_log db)"

definition logIngestion :: "store \<Rightarrow> string \<Rightarrow> string \<Rightarrow> nat \<Rightarrow> store" where
  "logIngestion db src chap n =
     db\<lparr> ingestion_log := ingestion_log db @
           [\<lparr> log_source = src, log_chapter = chap, provisions_count = n \<rparr>] \<rparr>"

subsection \<open>Search\<close>

fun like :: "string \<Rightarrow> string \<Rightarrow> bool" where
  \<comment> \<open>SQLite's \<open>text LIKE pattern\<close>, pattern first: \<open>%\<close> is any run of characters, \<open>_\<close> any
      single one, and letters compare without ASCII case\<close>
  "like [] s = (s = [])"
| "like (x # p) [] = (x = CHR ''%'' \<and> like p [])"
| "like (x # p) (c # cs) =
     (if x = CHR ''%'' then like p (c # cs) \<or> like (x # p) cs
      else (x = CHR ''_'' \<or> ascii_lower x = ascii_lower c) \<and> like p cs)"

definition sql_like :: "string \<Rightarrow> string option \<Rightarrow> bool" where
  \<comment> \<open>\<open>NULL LIKE x\<close> is \<open>NULL\<close>, which a \<open>WHERE\<close> built from \<open>OR\<close> and \<open>AND\<close> treats as
      false\<close>
  "sql_like pat field = (case field of None \<Rightarrow> False | Some s \<Rightarrow> like pat s)"

definition sql_limit :: "int \<Rightarrow> 'a list \<Rightarrow> 'a list" where
  \<comment> \<open>\<open>LIMIT n\<close>; a negative \<open>n\<close> is no limit\<close>
  "sql_limit n rows = (if n < 0 then rows else take (nat n) rows)"

definition term_condition :: "string \<Rightarrow> row \<Rightarrow> bool" where
  \<comment> \<open>\<open>(p.content LIKE ? OR p.chapter_title LIKE ? OR p.section_title LIKE ?)\<close> with the
      three parameters bound to \<open>%t%\<close>\<close>
  "term_condition t r =
     (let pat = ''%'' @ t @ ''%''
      in sql_like pat (content (data r)) \<or> sql_like pat (chapter_title (data r))
         \<or> sql_like pat (section_title (data r)))"

definition fallback_where :: "string list \<Rightarrow> string option \<Rightarrow> row \<Rightarrow> bool" where
  \<comment> \<open>The \<open>WHERE\<close> clause of \<open>fallbackSearch\<close>: the conditions joined by \<open>OR\<close>, then
      \<open>AND p.source = ?\<close> appended without parentheses. \<open>AND\<close> binds tighter than \<open>OR\<close>
      in SQL, so the source test belongs to the last condition alone.\<close>
  "fallback_where terms src r =
     (if js_truthy src then
        list_ex (\<lambda>t. term_condition t r) (butlast terms)
          \<or> (term_condition (last terms) r \<and> source (data r) = src)
      else list_ex (\<lambda>t. term_condition t r) terms)"

definition raw_terms :: "string \<Rightarrow> string list" where
  \<comment> \<open>\<open>query.split(/\s+/).filter(w => w.length > 2)\<close>\<close>
  "raw_terms query = filter (\<lambda>w. length w > 2) (js_split_ws query)"

datatype js_limit = Limit int | NaN

text \<open>
  The value bound to \<open>LIMIT ?\<close>. The callers pass \<open>5\<close>, \<open>8\<close> or
  \<open>Math.min(parseInt(limit), 20)\<close>, which is an integer or \<open>NaN\<close>. SQLite reports a
  datatype mismatch for a limit that is not an integer.
\<close>

type_synonym sql_engine = "store \<Rightarrow> string list \<Rightarrow> string option \<Rightarrow> js_limit \<Rightarrow> error option"

text \<open>
  SQLite's refusals of the statement of \<open>fallbackSearch\<close> are a parameter: given the
  store and what the statement is built from (the terms, the source, the limit), the
  exception with which \<open>prepare\<close> or \<open>all\<close> throws because of a limit of the engine
  (the depth of the expression tree, the number of variables, the length of a \<open>LIKE\<close>
  pattern), or \<open>None\<close> when the engine runs the statement.
\<close>

definition fallbackSearch ::
  "sql_engine \<Rightarrow> store \<Rightarrow> string \<Rightarrow> js_limit \<Rightarrow> string option \<Rightarrow> error + row list" where
  \<comment> \<open>\<open>Inl\<close> is an exception of \<open>db.prepare(sql).all(...params)\<close>; nothing catches it\<close>
  "fallbackSearch sqlite db query limit src =
     (let terms = raw_terms query
      in if terms = [] then Inr []
         else case sqlite db terms src limit of
                Some e \<Rightarrow> Inl e
              | None \<Rightarrow>
                  (case limit of
                     NaN \<Rightarrow> Inl DatatypeMismatch
                   | Limit n \<Rightarrow>
                       Inr (sql_limit n (filter (fallback_where terms src) (provisions db)))))"

definition clean_terms :: "string \<Rightarrow> string list" where
  \<comment> \<open>\<open>query.replace(/[^\w\s]/g, ' ').trim().split(/\s+/).filter(w => w.length > 2)\<close>\<close>
  "clean_terms query =
     filter (\<lambda>w. length w > 2)
       (js_split_ws (trim (map (\<lambda>c. if is_word c \<or> is_space c then c else CHR '' '') query)))"

definition cleanQuery :: "string \<Rightarrow> string" where
  \<comment> \<open>every term in double quotes, joined by \<open>OR\<close>\<close>
  "cleanQuery query =
     js_join '' OR '' (map (\<lambda>w. [CHR 0x22] @ w @ [CHR 0x22]) (clean_terms query))"

type_synonym fts_engine = "store \<Rightarrow> string \<Rightarrow> error + (nat \<Rightarrow> int option)"

text \<open>
  The FTS5 engine is a parameter: given the store and a \<open>MATCH\<close> expression it either
  rejects the expression or tells, for every row id, whether the row matches and with
  which rank.
\<close>

definition ranked_select ::
  "fts_engine \<Rightarrow> store \<Rightarrow> string \<Rightarrow> string option \<Rightarrow> js_limit \<Rightarrow> error + row list" where
  \<comment> \<open>\<open>SELECT .. FROM provisions_fts fts JOIN provisions p ON p.id = fts.rowid
      WHERE provisions_fts MATCH ? [AND p.source = ?] ORDER BY rank LIMIT ?\<close>\<close>
  "ranked_select engine db expr src limit =
     (case engine db expr of
        Inl e \<Rightarrow> Inl e
      | Inr rank \<Rightarrow>
          (case limit of
             NaN \<Rightarrow> Inl DatatypeMismatch
           | Limit n \<Rightarrow>
               Inr (sql_limit n (map snd (sort_key fst
                      (List.map_filter
                         (\<lambda>r. if js_truthy src \<and> source (data r) \<noteq> src then None
                              else map_option (\<lambda>k. (k, r)) (rank (rowid r)))
                         (provisions db)))))))"

definition searchProvisions ::
  "fts_engine \<Rightarrow> sql_engine \<Rightarrow> store \<Rightarrow> string \<Rightarrow> js_limit \<Rightarrow> string option
     \<Rightarrow> error + row list" where
  \<comment> \<open>\<open>Inl\<close> is an exception that reaches the caller: the \<open>try\<close> block holds the
      ranked statement only, and the call of \<open>fallbackSearch\<close> sits in the \<open>catch\<close>\<close>
  "searchProvisions engine sqlite db query limit src =
     (if cleanQuery query = [] then Inr []
      else case ranked_select engine db (cleanQuery query) src limit of
             Inr rows \<Rightarrow> Inr rows
           | Inl e \<Rightarrow> fallbackSearch sqlite db query limit src)"

section \<open>The ingestion loop (ingest-codes.js)\<close>

record chapter_unit =
  unit_chapter :: string
  unit_title :: string
  unit_url :: string

text \<open>
  A unit of work carries what the loop hands to \<open>isIngested\<close>, \<open>fetchPdf\<close> and
  \<open>extractAndChunk\<close>: the chapter reference, the chapter title and the address of the
  document. \<open>ingestMunicipalCode\<close> takes its units from the index page, the other two
  from the static catalogue; the three loops differ in the source name and in what they
  print.
\<close>

definition ingest_unit ::
  "(string \<Rightarrow> error + 'b) \<Rightarrow> ('b \<Rightarrow> string option) \<Rightarrow> (provision \<Rightarrow> bool) \<Rightarrow> string \<Rightarrow>
     store \<times> nat \<Rightarrow> chapter_unit \<Rightarrow> (store \<times> nat) option" where
  \<comment> \<open>One round of the loop on the store and \<open>totalProvisions\<close>. The arguments are
      \<open>fetchPdf\<close>, \<open>pdfParse\<close> and the store's refusals; every exception of the \<open>try\<close>
      block ends the round. \<open>None\<close>: the round does not return.\<close>
  "ingest_unit fetchPdf pdfParse refuses src st u =
     (case st of (db, count) \<Rightarrow>
       if isIngested db src (unit_chapter u) then Some (db, count)
       else (case fetchPdf (unit_url u) of
               Inl e \<Rightarrow> Some (db, count)
             | Inr pdfBuffer \<Rightarrow>
                 (case extractAndChunk (pdfParse pdfBuffer) src (unit_chapter u)
                         (unit_title u) (unit_url u) of
                    None \<Rightarrow> None
                  | Some ps \<Rightarrow>
                      if length ps > 0 then
                        (case bulkInsert refuses db ps of
                           (Inl e, db') \<Rightarrow> Some (db', count)
                         | (Inr n, db') \<Rightarrow>
                             Some (logIngestion db' src (unit_chapter u) (length ps),
                                   count + length ps))
                      else Some (db, count))))"

fun ingest_loop ::
  "(string \<Rightarrow> error + 'b) \<Rightarrow> ('b \<Rightarrow> string option) \<Rightarrow> (provision \<Rightarrow> bool) \<Rightarrow> string \<Rightarrow>
     store \<times> nat \<Rightarrow> chapter_unit list \<Rightarrow> (store \<times> nat) option" where
  "ingest_loop fetchPdf pdfParse refuses src st [] = Some st"
| "ingest_loop fetchPdf pdfParse refuses src st (u # us) =
     (case ingest_unit fetchPdf pdfParse refuses src st u of
        None \<Rightarrow> None
      | Some st' \<Rightarrow> ingest_loop fetchPdf pdfParse refuses src st' us)"

definition ingestMunicipalCode ::
  "(string \<Rightarrow> error + 'b) \<Rightarrow> ('b \<Rightarrow> string option) \<Rightarrow> (provision \<Rightarrow> bool) \<Rightarrow>
     store \<Rightarrow> chapter_unit list \<Rightarrow> (store \<times> nat) option" where
  \<comment> \<open>the loop over \<open>toIngest\<close>, from \<open>totalProvisions = 0\<close>\<close>
  "ingestMunicipalCode fetchPdf pdfParse refuses db toIngest =
     ingest_loop fetchPdf pdfParse refuses ''municipal_code'' (db, 0) toIngest"

definition ingestZoningBylaw ::
  "(string \<Rightarrow> error + 'b) \<Rightarrow> ('b \<Rightarrow> string option) \<Rightarrow> (provision \<Rightarrow> bool) \<Rightarrow>
     store \<Rightarrow> chapter_unit list \<Rightarrow> (store \<times> nat) option" where
  "ingestZoningBylaw fetchPdf pdfParse refuses db pdfUrls =
     ingest_loop fetchPdf pdfParse refuses ''zoning_bylaw'' (db, 0) pdfUrls"

definition ingestOfficialPlan ::
  "(string \<Rightarrow> error + 'b) \<Rightarrow> ('b \<Rightarrow> string option) \<Rightarrow> (provision \<Rightarrow> bool) \<Rightarrow>
     store \<Rightarrow> chapter_unit list \<Rightarrow> (store \<times> nat) option" where
  "ingestOfficialPlan fetchPdf pdfParse refuses db pdfUrls =
     ingest_loop fetchPdf pdfParse refuses ''official_plan'' (db, 0) pdfUrls"

section \<open>Query expansion (server.js)\<close>

definition mappings :: "(string \<times> string) list" where
  \<comment> \<open>the \<open>mappings\<close> object of \<open>extractSearchTerms\<close>, in its order: the source of the
      trigger expression and the expansion terms\<close>
  "mappings =
    [(''late|commute|bus|streetcar|subway|ttc|train|transit|shuttle'',
        ''transit TTC service streetcar bus''),
     (''traffic|congestion|gridlock|slow|stuck'', ''traffic right-of-way road''),
     (''rent|apartment|condo|housing|afford|expensive|lease'',
        ''housing residential dwelling density''),
     (''basement|suite|secondary|laneway|garden suite'',
        ''laneway secondary suite dwelling additional''),
     (''build|construct|renovate|addition|permit'', ''building permit construction site plan''),
     (''parking|park|car|drive|garage'', ''parking minimum vehicle spaces''),
     (''noise|loud|music|construction noise|barking'', ''noise sound prohibited''),
     (''fence|yard|garden|tree|property line'', ''fence property boundary setback''),
     (''snow|plow|ice|winter|shovel|salt'', ''snow ice removal clearing windrow''),
     (''garbage|waste|recycling|bin|collection'', ''waste collection recycling''),
     (''restaurant|bar|cafe|patio|food|shop|store|business'',
        ''commercial retail restaurant licence patio''),
     (''sign|billboard|awning'', ''sign advertising display''),
     (''sidewalk|road|pothole|crosswalk|intersection'', ''street sidewalk road maintenance''),
     (''bike|bicycle|cycling|cycle track'', ''bicycle cycling lane''),
     (''pedestrian|walk|crossing'', ''pedestrian crosswalk sidewalk''),
     (''development|tower|highrise|condo|new building'',
        ''development height density setback angular''),
     (''heritage|old building|historic'', ''heritage conservation designation''),
     (''safety|dangerous|hazard'', ''safety property standard''),
     (''fire|smoke|alarm'', ''fire safety building code''),
     (''dog|pet|animal|leash'', ''animal dog pet''),
     (''licence|license|permit|application|wait'', ''licence permit application'')]"

definition triggers :: "string \<Rightarrow> string list" where
  \<comment> \<open>the alternatives of \<open>new RegExp(patterns, 'i')\<close>; no key holds another
      metacharacter than the bar\<close>
  "triggers patterns = js_split_char (CHR ''|'') patterns"

definition set_add :: "string list \<Rightarrow> string \<Rightarrow> string list" where
  \<comment> \<open>\<open>terms.add(t)\<close> on a \<open>Set\<close>, which keeps insertion order\<close>
  "set_add terms t = (if t \<in> set terms then terms else terms @ [t])"

definition apply_mapping :: "string \<Rightarrow> string list \<Rightarrow> string \<times> string \<Rightarrow> string list" where
  \<comment> \<open>one round of the loop over \<open>Object.entries(mappings)\<close>\<close>
  "apply_mapping s terms entry =
     (case entry of (patterns, searchTerms) \<Rightarrow>
        if re_test (alt_i (triggers patterns)) s
        then foldl set_add terms (js_split_char (CHR '' '') searchTerms)
        else terms)"

definition location_alts :: "matcher list" where
  \<comment> \<open>the alternatives of the group in the location expression, in their order\<close>
  "location_alts =
    [lit_i ''queen'', lit_i ''king'', lit_i ''bloor'', lit_i ''dundas'', lit_i ''yonge'',
     lit_i ''spadina'', lit_i ''bathurst'', lit_i ''ossington'', lit_i ''college'',
     (\<lambda>s. lit_i ''st'' s \<bind> opt (\<lambda>c. c = CHR ''.'') \<bind> many is_space \<bind> lit_i ''clair''),
     lit_i ''danforth'', lit_i ''eglinton'', lit_i ''lawrence'', lit_i ''sheppard'',
     lit_i ''finch'', lit_i ''scarborough'', lit_i ''etobicoke'', lit_i ''north york'',
     lit_i ''east york'', lit_i ''leslieville'', lit_i ''parkdale'', lit_i ''junction'',
     lit_i ''kensington'', lit_i ''annex'', lit_i ''beaches'', lit_i ''liberty'',
     lit_i ''distillery'', lit_i ''corktown'', lit_i ''regent'', lit_i ''moss park'',
     (\<lambda>s. lit_i ''cabbage'' s \<bind> opt (\<lambda>c. c = CHR '' '') \<bind> lit_i ''town''),
     (\<lambda>s. lit_i ''river'' s \<bind> opt (\<lambda>c. c = CHR '' '') \<bind> lit_i ''dale'')]"

definition boundary_after :: "string \<Rightarrow> bool" where
  \<comment> \<open>the closing \<open>\b\<close>: every alternative ends in a letter, so no word character may
      follow\<close>
  "boundary_after rest = (case rest of [] \<Rightarrow> True | c # _ \<Rightarrow> \<not> is_word c)"

fun first_location :: "matcher list \<Rightarrow> string \<Rightarrow> string option" where
  \<comment> \<open>the text matched at the start of the input by the first alternative that matches
      with a word boundary after it\<close>
  "first_location [] s = None"
| "first_location (m # ms) s =
     (case m s of
        None \<Rightarrow> first_location ms s
      | Some rest \<Rightarrow>
          if boundary_after rest then Some (take (length s - length rest) s)
          else first_location ms s)"

fun scan_locations :: "bool \<Rightarrow> nat \<Rightarrow> string \<Rightarrow> string list" where
  \<comment> \<open>\<open>s.match(/\b(..)\b/gi)\<close>, from left to right. The flag says that the character
      before is a word character (the opening \<open>\b\<close> then fails, every alternative
      starting with a letter); the counter is the number of characters still covered
      by the last match.\<close>
  "scan_locations prev_word skip [] = []"
| "scan_locations prev_word skip (c # cs) =
     (if skip > 0 then scan_locations (is_word c) (skip - 1) cs
      else if prev_word then scan_locations (is_word c) 0 cs
      else case first_location location_alts (c # cs) of
             None \<Rightarrow> scan_locations (is_word c) 0 cs
           | Some m \<Rightarrow> m # scan_locations (is_word c) (length m - 1) cs)"

definition search_terms :: "string \<Rightarrow> string list" where
  \<comment> \<open>the elements of \<open>terms\<close> when \<open>extractSearchTerms\<close> returns\<close>
  "search_terms story =
     (let s = toLowerCase story;
          terms = foldl (apply_mapping s) [] mappings;
          locations = scan_locations False 0 s
      in foldl set_add terms (map toLowerCase locations))"

definition extractSearchTerms :: "string \<Rightarrow> string" where
  "extractSearchTerms story = js_join '' '' (search_terms story)"

section \<open>Example inputs\<close>

definition noise_doc :: string where
  "noise_doc = ''No person shall make or permit construction noise before seven in the morning.''"

definition two_conventions_doc :: string where
  "two_conventions_doc =
     ''ARTICLE I General provisions that apply to every person. '' @
     ''ARTICLE II Specific provisions, listed one by one below. '' @
     ''1.1.1 No person shall make or permit noise after eleven at night. '' @
     ''1.1.2 Construction noise is prohibited before seven in the morning.''"

definition two_sections_doc :: string where
  "two_sections_doc =
     [CHR 0xA7] @ '' 591-2.1 No person shall make noise after 11pm.'' @ [CHR 0x0A] @
     [CHR 0xA7] @ '' 591-2.2 Construction noise is prohibited before 7am.''"

definition rejecting_engine :: fts_engine where
  "rejecting_engine db expr = Inl FtsError"

definition noise_row :: row where
  "noise_row = \<lparr> rowid = 1, data = \<lparr> source = Some ''municipal_code'',
      chapter_ref = Some ''Chapter 591'', chapter_title = Some ''Noise'',
      section_ref = Some ''Chapter 591-591-2.1'', section_title = None,
      content = Some ''No person shall make noise after eleven at night.'',
      summary = None, pdf_url = None, keywords_f = Some ''noise'' \<rparr> \<rparr>"

definition parking_row :: row where
  "parking_row = \<lparr> rowid = 2, data = \<lparr> source = Some ''zoning_bylaw'',
      chapter_ref = Some ''Zoning By-law 569-2013 Vol. 1'', chapter_title = Some ''Parking'',
      section_ref = Some ''200.5.10'', section_title = None,
      content = Some ''Parking spaces must be provided for each dwelling unit.'',
      summary = None, pdf_url = None, keywords_f = Some ''parking'' \<rparr> \<rparr>"

definition two_row_store :: store where
  "two_row_store = \<lparr> provisions = [noise_row, parking_row], seq = 2, ingestion_log = [] \<rparr>"

definition good_item :: provision where
  "good_item = \<lparr> source = Some ''municipal_code'',
      chapter_ref = Some ''Chapter 591'', chapter_title = Some ''Noise'',
      section_ref = Some ''Chapter 591 (Part 1)'', section_title = None,
      content = Some ''Construction noise is prohibited before seven.'',
      summary = None, pdf_url = None, keywords_f = Some ''noise'' \<rparr>"

definition bad_item :: provision where
  "bad_item = good_item \<lparr> content := None \<rparr>"


definition depth_limited_sqlite :: sql_engine where
  "depth_limited_sqlite db terms src limit =
     (if 1000 < length terms + 3 then Some ExpressionTooLarge else None)"




definition empty_store :: store where
  "empty_store = \<lparr> provisions = [], seq = 0, ingestion_log = [] \<rparr>"

definition noise_unit :: chapter_unit where
  "noise_unit = \<lparr> unit_chapter = ''Chapter 591'', unit_title = ''Noise'',
                  unit_url = ''ch591.pdf'' \<rparr>"

definition one_document_site :: "string \<Rightarrow> error + string" where
  "one_document_site url = (if url = ''ch591.pdf'' then Inr noise_doc else Inl FetchError)"

section \<open>Properties of segmentation\<close>

subsection \<open>The chunker returns\<close>

lemma chunkLoop_returns:
  assumes "overlap < chunkSize"
  shows "\<exists>cs. chunkLoop text chunkSize overlap start chunks = Some cs"
proof (induction "nat (int (length text) - start)" arbitrary: start chunks rule: less_induct)
  case less
  show ?case
  proof (cases "start < int (length text)")
    case False
    then show ?thesis by (subst chunkLoop.simps) simp
  next
    case inside: True
    let ?e = "min (start + chunkSize) (int (length text))"
    show ?thesis
    proof (cases "?e - overlap \<ge> int (length text) - overlap")
      case True
      then show ?thesis using inside by (subst chunkLoop.simps) (simp add: Let_def)
    next
      case False
      then have e: "?e = start + chunkSize" by (simp add: min_def split: if_splits)
      have "nat (int (length text) - (?e - overlap)) < nat (int (length text) - start)"
        using e inside assms by simp
      from less[OF this] obtain cs where
        "chunkLoop text chunkSize overlap (?e - overlap) (chunks @ [js_slice text start ?e]) = Some cs"
        by blast
      then show ?thesis using inside False by (subst chunkLoop.simps) (simp add: Let_def)
    qed
  qed
qed

lemma final_sections_returns: "\<exists>secs. final_sections text = Some secs"
  using chunkLoop_returns[of 200 1500 "text" 0 "[]"]
  by (auto simp: final_sections_def chunkBySize_def Let_def)

lemma js_slice_from_0: "0 \<le> n \<Longrightarrow> js_slice s 0 n = take (nat n) s"
  by (simp add: js_slice_def Let_def min_def)

lemma content_make_provision:
  "content (make_provision src chap t u (i, x)) = Some (take 3000 (trim x))"
  by (simp add: make_provision_def js_slice_from_0)

lemma set_provisions_of:
  "p \<in> set (provisions_of src chap t u secs) \<Longrightarrow>
     \<exists>i x. i < length secs \<and> x = secs ! i \<and> p = make_provision src chap t u (i, x)"
  by (auto simp: provisions_of_def in_set_enumerate_eq)

lemma show_nat_nonempty: "show_nat n \<noteq> []"
  by (subst show_nat.simps) simp

lemma digit_char_inj: "a < 10 \<Longrightarrow> b < 10 \<Longrightarrow> digit_char a = digit_char b \<Longrightarrow> a = b"
proof -
  assume a: "a < 10" and b: "b < 10" and eq: "digit_char a = digit_char b"
  have d: "distinct ''0123456789''" by simp
  have "a < length ''0123456789''" "b < length ''0123456789''" using a b by simp_all
  with d eq show "a = b" unfolding digit_char_def by (simp only: nth_eq_iff_index_eq)
qed

lemma show_nat_inj: "show_nat n = show_nat m \<Longrightarrow> n = m"
proof (induction n arbitrary: m rule: show_nat.induct)
  case (1 n)
  show ?case
  proof (cases "n < 10")
    case small: True
    show ?thesis
    proof (cases "m < 10")
      case True
      with small "1.prems" show ?thesis
        by (simp add: show_nat.simps[of n] show_nat.simps[of m] digit_char_inj)
    next
      case False
      with small "1.prems" show ?thesis
        using show_nat_nonempty[of "m div 10"]
        by (simp add: show_nat.simps[of n] show_nat.simps[of m])
    qed
  next
    case big: False
    show ?thesis
    proof (cases "m < 10")
      case True
      with big "1.prems" show ?thesis
        using show_nat_nonempty[of "n div 10"]
        by (simp add: show_nat.simps[of n] show_nat.simps[of m])
    next
      case False
      with big "1.prems" have
        a: "show_nat (n div 10) = show_nat (m div 10)" and
        b: "digit_char (n mod 10) = digit_char (m mod 10)"
        by (simp_all add: show_nat.simps[of n] show_nat.simps[of m])
      from "1.IH"[OF big a] have q: "n div 10 = m div 10" .
      from b have r: "n mod 10 = m mod 10" by (auto intro: digit_char_inj)
      from q r show ?thesis by (metis div_mult_mod_eq)
    qed
  qed
qed

lemma nth_provisions_of:
  "i < length secs \<Longrightarrow>
   provisions_of src chap t u secs ! i = make_provision src chap t u (i, secs ! i)"
  by (simp add: provisions_of_def nth_enumerate_eq)

lemma section_ref_make_provision:
  "section_ref (make_provision src chap t u (i, x)) =
     Some (case section_of x of Some sec \<Rightarrow> chap @ ''-'' @ sec
           | None \<Rightarrow> chap @ '' (Part '' @ show_nat (i + 1) @ '')'')"
  by (simp add: make_provision_def)

lemma section_of_nonempty: "section_of x = Some sec \<Longrightarrow> sec \<noteq> []"
  by (auto simp: section_of_def split: option.splits if_splits)

lemma content_length_make_provision:
  "content_length (make_provision src chap t u (i, x)) = min 3000 (length (trim x))"
  by (simp add: content_length_def content_make_provision min_def)

lemma extractAndChunk_all_kept:
  assumes "final_sections doc = Some secs" and "50 \<le> length doc"
    and "\<forall>s \<in> set secs. 50 < length (trim s)"
  shows "extractAndChunk (Some doc) src chap t u = Some (provisions_of src chap t u secs)"
proof -
  have "content_length p > 50" if "p \<in> set (provisions_of src chap t u secs)" for p
  proof -
    from set_provisions_of[OF that] obtain i where
      i: "i < length secs" and p: "p = make_provision src chap t u (i, secs ! i)" by blast
    from i assms(3) have "50 < length (trim (secs ! i))" by simp
    then show ?thesis by (simp add: p content_length_make_provision)
  qed
  then have "filter (\<lambda>p. content_length p > 50) (provisions_of src chap t u secs)
             = provisions_of src chap t u secs"
    by (simp add: filter_id_conv)
  with assms(1,2) show ?thesis
    by (auto simp: extractAndChunk_def)
qed

lemma length_provisions_of: "length (provisions_of src chap t u secs) = length secs"
  by (simp add: provisions_of_def)

lemma noise_doc_sections: "final_sections noise_doc = Some [noise_doc]"
  by code_simp

lemma noise_doc_trim: "length (trim noise_doc) = 78"
  by code_simp

lemma noise_doc_length: "length noise_doc = 78"
  by (simp add: noise_doc_def)

lemma noise_doc_provisions:
  "extractAndChunk (Some noise_doc) src chap t u = Some (provisions_of src chap t u [noise_doc])"
  by (rule extractAndChunk_all_kept) (simp_all add: noise_doc_sections noise_doc_trim noise_doc_length)

text \<open>
  C3. \<open>extractAndChunk\<close> returns on every input, and every provision it returns has a
  content that is not empty, at least 50 and at most 3000 characters long.
\<close>

theorem extractAndChunk_content_bounds:
  "\<exists>ps. extractAndChunk parsed src chap t u = Some ps \<and>
     (\<forall>p \<in> set ps. \<exists>c. content p = Some c \<and> c \<noteq> [] \<and> 50 \<le> length c \<and> length c \<le> 3000)"
proof (cases parsed)
  case None
  then show ?thesis by (simp add: extractAndChunk_def)
next
  case (Some doc)
  obtain secs where secs: "final_sections doc = Some secs"
    using final_sections_returns by blast
  show ?thesis
  proof (cases "doc = [] \<or> length doc < 50")
    case True
    then show ?thesis using Some by (simp add: extractAndChunk_def)
  next
    case False
    let ?ps = "filter (\<lambda>p. content_length p > 50) (provisions_of src chap t u secs)"
    have eq: "extractAndChunk parsed src chap t u = Some ?ps"
      using Some False secs by (simp add: extractAndChunk_def)
    have "\<exists>c. content p = Some c \<and> c \<noteq> [] \<and> 50 \<le> length c \<and> length c \<le> 3000"
      if "p \<in> set ?ps" for p
    proof -
      from that have mem: "p \<in> set (provisions_of src chap t u secs)"
        and long: "content_length p > 50" by auto
      from set_provisions_of[OF mem] obtain i x where
        p: "p = make_provision src chap t u (i, x)" by blast
      have c: "content p = Some (take 3000 (trim x))"
        by (simp add: p content_make_provision)
      with long have "50 < length (take 3000 (trim x))"
        by (simp add: content_length_def)
      with c show ?thesis by auto
    qed
    with eq show ?thesis by blast
  qed
qed

theorem extractAndChunk_content_bounds_witness:
  "\<exists>ps. extractAndChunk (Some noise_doc) ''municipal_code'' ''Chapter 591'' ''Noise'' ''ch591.pdf''
          = Some ps \<and> ps \<noteq> [] \<and>
     (\<forall>p \<in> set ps. \<exists>c. content p = Some c \<and> c \<noteq> [] \<and> 50 \<le> length c \<and> length c \<le> 3000)"
proof -
  have "length (provisions_of ''municipal_code'' ''Chapter 591'' ''Noise'' ''ch591.pdf'' [noise_doc]) = 1"
    by (simp add: length_provisions_of)
  then have "provisions_of ''municipal_code'' ''Chapter 591'' ''Noise'' ''ch591.pdf'' [noise_doc] \<noteq> []"
    by auto
  moreover from extractAndChunk_content_bounds
      [of "Some noise_doc" "''municipal_code''" "''Chapter 591''" "''Noise''" "''ch591.pdf''"]
  obtain ps where
    "extractAndChunk (Some noise_doc) ''municipal_code'' ''Chapter 591'' ''Noise'' ''ch591.pdf''
       = Some ps \<and> ps = ps" and "\<forall>p \<in> set ps. \<exists>c. content p = Some c \<and> c \<noteq> [] \<and> 50 \<le> length c \<and> length c \<le> 3000"
    by blast
  ultimately show ?thesis
    using noise_doc_provisions[of "''municipal_code''" "''Chapter 591''" "''Noise''" "''ch591.pdf''"]
    by (intro exI[of _ ps]) simp
qed

text \<open>
  C10. Every provision that \<open>extractAndChunk\<close> returns has a section reference that
  is present, not empty and starts with the chapter: the chapter, a hyphen and the
  recovered identifier, or the chapter and \<open>(Part n)\<close>.
\<close>

theorem section_ref_present:
  "\<exists>ps. extractAndChunk parsed src chap t u = Some ps \<and>
     (\<forall>p \<in> set ps. \<exists>r. section_ref p = Some r \<and> r \<noteq> [] \<and> prefix chap r \<and>
        ((\<exists>sec. sec \<noteq> [] \<and> r = chap @ ''-'' @ sec) \<or>
         (\<exists>n. 0 < n \<and> r = chap @ '' (Part '' @ show_nat n @ '')'')))"
proof (cases parsed)
  case None
  then show ?thesis by (simp add: extractAndChunk_def)
next
  case (Some doc)
  obtain secs where secs: "final_sections doc = Some secs"
    using final_sections_returns by blast
  show ?thesis
  proof (cases "doc = [] \<or> length doc < 50")
    case True
    then show ?thesis using Some by (simp add: extractAndChunk_def)
  next
    case False
    let ?ps = "filter (\<lambda>p. content_length p > 50) (provisions_of src chap t u secs)"
    have eq: "extractAndChunk parsed src chap t u = Some ?ps"
      using Some False secs by (simp add: extractAndChunk_def)
    have "\<exists>r. section_ref p = Some r \<and> r \<noteq> [] \<and> prefix chap r \<and>
        ((\<exists>sec. sec \<noteq> [] \<and> r = chap @ ''-'' @ sec) \<or>
         (\<exists>n. 0 < n \<and> r = chap @ '' (Part '' @ show_nat n @ '')''))"
      if "p \<in> set ?ps" for p
    proof -
      from that have "p \<in> set (provisions_of src chap t u secs)" by simp
      from set_provisions_of[OF this] obtain i x where
        p: "p = make_provision src chap t u (i, x)" by blast
      show ?thesis
      proof (cases "section_of x")
        case None
        then have "section_ref p = Some (chap @ '' (Part '' @ show_nat (i + 1) @ '')'')"
          by (simp add: p section_ref_make_provision)
        then show ?thesis by auto
      next
        case (Some sec)
        then have "section_ref p = Some (chap @ ''-'' @ sec)"
          by (simp add: p section_ref_make_provision)
        moreover have "sec \<noteq> []" using Some by (rule section_of_nonempty)
        ultimately show ?thesis by auto
      qed
    qed
    with eq show ?thesis by blast
  qed
qed

theorem section_ref_present_witness:
  "\<exists>ps. extractAndChunk (Some noise_doc) ''municipal_code'' ''Chapter 591'' ''Noise'' ''ch591.pdf''
          = Some ps \<and> ps \<noteq> [] \<and>
     (\<forall>p \<in> set ps. \<exists>r. section_ref p = Some r \<and> r \<noteq> [] \<and> prefix ''Chapter 591'' r \<and>
        ((\<exists>sec. sec \<noteq> [] \<and> r = ''Chapter 591'' @ ''-'' @ sec) \<or>
         (\<exists>n. 0 < n \<and> r = ''Chapter 591'' @ '' (Part '' @ show_nat n @ '')'')))"
proof -
  have "length (provisions_of ''municipal_code'' ''Chapter 591'' ''Noise'' ''ch591.pdf'' [noise_doc]) = 1"
    by (simp add: length_provisions_of)
  then have "provisions_of ''municipal_code'' ''Chapter 591'' ''Noise'' ''ch591.pdf'' [noise_doc] \<noteq> []"
    by auto
  moreover from section_ref_present
      [of "Some noise_doc" "''municipal_code''" "''Chapter 591''" "''Noise''" "''ch591.pdf''"]
  obtain ps where
    "extractAndChunk (Some noise_doc) ''municipal_code'' ''Chapter 591'' ''Noise'' ''ch591.pdf''
       = Some ps \<and> ps = ps" and "\<forall>p \<in> set ps. \<exists>r. section_ref p = Some r \<and> r \<noteq> [] \<and> prefix ''Chapter 591'' r \<and>
        ((\<exists>sec. sec \<noteq> [] \<and> r = ''Chapter 591'' @ ''-'' @ sec) \<or>
         (\<exists>n. 0 < n \<and> r = ''Chapter 591'' @ '' (Part '' @ show_nat n @ '')''))"
    by blast
  ultimately show ?thesis
    using noise_doc_provisions[of "''municipal_code''" "''Chapter 591''" "''Noise''" "''ch591.pdf''"]
    by (intro exI[of _ ps]) simp
qed

text \<open>
  C8. In the list that \<open>sections.map\<close> builds, a segment without a recoverable section
  identifier at position \<open>i\<close> (counted from 0) gets the reference
  \<open>{chapter} (Part i+1)\<close>, and two such segments at different positions get different
  references. When none of the \<open>n\<close> segments has an identifier, the references are
  \<open>{chapter} (Part 1)\<close> to \<open>{chapter} (Part n)\<close> in this order, pairwise distinct.
  \<open>extractAndChunk\<close> returns those entries of the list whose content is longer than
  50 characters.
\<close>

theorem synthesized_references:
  "(\<forall>i < length secs. section_of (secs ! i) = None \<longrightarrow>
      section_ref (provisions_of src chap t u secs ! i)
        = Some (chap @ '' (Part '' @ show_nat (i + 1) @ '')'')) \<and>
   (\<forall>i < length secs. \<forall>j < length secs.
      section_of (secs ! i) = None \<and> section_of (secs ! j) = None \<and> i \<noteq> j \<longrightarrow>
      section_ref (provisions_of src chap t u secs ! i)
        \<noteq> section_ref (provisions_of src chap t u secs ! j)) \<and>
   ((\<forall>s \<in> set secs. section_of s = None) \<longrightarrow>
      map section_ref (provisions_of src chap t u secs)
        = map (\<lambda>n. Some (chap @ '' (Part '' @ show_nat n @ '')'')) [1 ..< length secs + 1] \<and>
      distinct (map section_ref (provisions_of src chap t u secs)))"
proof -
  have a: "section_ref (provisions_of src chap t u secs ! i)
        = Some (chap @ '' (Part '' @ show_nat (i + 1) @ '')'')"
    if "i < length secs" "section_of (secs ! i) = None" for i
    using that by (simp add: nth_provisions_of section_ref_make_provision)
  have b: "section_ref (provisions_of src chap t u secs ! i)
        \<noteq> section_ref (provisions_of src chap t u secs ! j)"
    if "i < length secs" "j < length secs" "section_of (secs ! i) = None"
       "section_of (secs ! j) = None" "i \<noteq> j" for i j
  proof
    assume "section_ref (provisions_of src chap t u secs ! i)
        = section_ref (provisions_of src chap t u secs ! j)"
    with a that have "show_nat (i + 1) = show_nat (j + 1)" by simp
    then have "i + 1 = j + 1" by (rule show_nat_inj)
    with that show False by simp
  qed
  have c: "map section_ref (provisions_of src chap t u secs)
        = map (\<lambda>n. Some (chap @ '' (Part '' @ show_nat n @ '')'')) [1 ..< length secs + 1] \<and>
      distinct (map section_ref (provisions_of src chap t u secs))"
    if all: "\<forall>s \<in> set secs. section_of s = None"
  proof
    show "map section_ref (provisions_of src chap t u secs)
        = map (\<lambda>n. Some (chap @ '' (Part '' @ show_nat n @ '')'')) [1 ..< length secs + 1]"
    proof (rule nth_equalityI)
      show "length (map section_ref (provisions_of src chap t u secs))
          = length (map (\<lambda>n. Some (chap @ '' (Part '' @ show_nat n @ '')''))
                     [1 ..< length secs + 1])"
        by (simp add: length_provisions_of del: upt_Suc)
    next
      fix i assume "i < length (map section_ref (provisions_of src chap t u secs))"
      then have i: "i < length secs" by (simp add: length_provisions_of)
      with all have "section_of (secs ! i) = None" by simp
      have "[1 ..< length secs + 1] ! i = i + 1"
        using i nth_upt[of 1 i "length secs + 1"] by simp
      with a[OF i \<open>section_of (secs ! i) = None\<close>] i
      show "map section_ref (provisions_of src chap t u secs) ! i
          = map (\<lambda>n. Some (chap @ '' (Part '' @ show_nat n @ '')''))
              [1 ..< length secs + 1] ! i"
        by (simp add: length_provisions_of del: upt_Suc)
    qed
  next
    show "distinct (map section_ref (provisions_of src chap t u secs))"
      unfolding distinct_conv_nth
    proof (intro allI impI)
      fix i j
      assume "i < length (map section_ref (provisions_of src chap t u secs))"
        and "j < length (map section_ref (provisions_of src chap t u secs))" and ne: "i \<noteq> j"
      then have i: "i < length secs" and j: "j < length secs"
        by (simp_all add: length_provisions_of)
      with all have "section_of (secs ! i) = None" "section_of (secs ! j) = None" by simp_all
      from b[OF i j this ne] i j
      show "map section_ref (provisions_of src chap t u secs) ! i
          \<noteq> map section_ref (provisions_of src chap t u secs) ! j"
        by (simp add: length_provisions_of)
    qed
  qed
  from a b c show ?thesis by blast
qed

lemma show_nat_1: "show_nat 1 = ''1''" by code_simp
lemma show_nat_3: "show_nat 3 = ''3''" by code_simp

theorem synthesized_references_witness:
  "section_of ''Preamble to the chapter'' = None \<and> section_of ''Closing remarks'' = None \<and>
   section_ref (provisions_of ''municipal_code'' ''Chapter 591'' ''Noise'' ''ch591.pdf''
       [''Preamble to the chapter'', ''591-2 Noise limits'', ''Closing remarks''] ! 0)
     = Some ''Chapter 591 (Part 1)'' \<and>
   section_ref (provisions_of ''municipal_code'' ''Chapter 591'' ''Noise'' ''ch591.pdf''
       [''Preamble to the chapter'', ''591-2 Noise limits'', ''Closing remarks''] ! 2)
     = Some ''Chapter 591 (Part 3)'' \<and>
   section_ref (provisions_of ''municipal_code'' ''Chapter 591'' ''Noise'' ''ch591.pdf''
       [''Preamble to the chapter'', ''591-2 Noise limits'', ''Closing remarks''] ! 0)
     \<noteq> section_ref (provisions_of ''municipal_code'' ''Chapter 591'' ''Noise'' ''ch591.pdf''
       [''Preamble to the chapter'', ''591-2 Noise limits'', ''Closing remarks''] ! 2) \<and>
   map section_ref (provisions_of ''municipal_code'' ''Chapter 591'' ''Noise'' ''ch591.pdf''
       [''Preamble to the chapter'', ''Closing remarks''])
     = [Some ''Chapter 591 (Part 1)'', Some ''Chapter 591 (Part 2)''] \<and>
   distinct (map section_ref (provisions_of ''municipal_code'' ''Chapter 591'' ''Noise''
       ''ch591.pdf'' [''Preamble to the chapter'', ''Closing remarks'']))"
proof -
  have a: "section_of ''Preamble to the chapter'' = None" by code_simp
  have c: "section_of ''Closing remarks'' = None" by code_simp
  have s2: "show_nat 2 = ''2''" by code_simp
  note T = synthesized_references[where
      secs = "[''Preamble to the chapter'', ''591-2 Noise limits'', ''Closing remarks'']"
      and chap = "''Chapter 591''" and src = "''municipal_code''" and t = "''Noise''"
      and u = "''ch591.pdf''"]
  note U = synthesized_references[where
      secs = "[''Preamble to the chapter'', ''Closing remarks'']"
      and chap = "''Chapter 591''" and src = "''municipal_code''" and t = "''Noise''"
      and u = "''ch591.pdf''", THEN conjunct2, THEN conjunct2, THEN mp]
  from T[THEN conjunct1, rule_format, of 0] have p0: "section_ref (provisions_of ''municipal_code'' ''Chapter 591'' ''Noise'' ''ch591.pdf''
       [''Preamble to the chapter'', ''591-2 Noise limits'', ''Closing remarks''] ! 0)
     = Some ''Chapter 591 (Part 1)''"
    using a show_nat_1 by simp
  from T[THEN conjunct1, rule_format, of 2] have p2: "section_ref (provisions_of ''municipal_code'' ''Chapter 591'' ''Noise'' ''ch591.pdf''
       [''Preamble to the chapter'', ''591-2 Noise limits'', ''Closing remarks''] ! 2)
     = Some ''Chapter 591 (Part 3)''"
    using c show_nat_3 by simp
  have all: "\<forall>s \<in> set [''Preamble to the chapter'', ''Closing remarks'']. section_of s = None"
    using a c by simp
  have up: "[1 ..< length [''Preamble to the chapter'', ''Closing remarks''] + 1] = [1, 2]"
    by (simp add: upt_rec)
  from U[OF all] have m: "map section_ref (provisions_of ''municipal_code'' ''Chapter 591''
       ''Noise'' ''ch591.pdf'' [''Preamble to the chapter'', ''Closing remarks''])
     = [Some ''Chapter 591 (Part 1)'', Some ''Chapter 591 (Part 2)'']"
    unfolding up by (simp add: show_nat_1[unfolded One_nat_def] s2)
  from U[OF all] have d: "distinct (map section_ref (provisions_of ''municipal_code''
       ''Chapter 591'' ''Noise'' ''ch591.pdf'' [''Preamble to the chapter'', ''Closing remarks'']))"
    by (rule conjunct2)
  show ?thesis using a c p0 p2 m d by (simp only:) simp
qed

subsection \<open>Choice of the boundary pattern\<close>

lemma try_pattern_cases:
  "try_pattern doc acc re = acc \<or>
   (try_pattern doc acc re = splits_of re doc \<and> length acc < length (splits_of re doc)
      \<and> length (splits_of re doc) < 200)"
  by (simp add: try_pattern_def Let_def)

lemma try_pattern_mono: "length acc \<le> length (try_pattern doc acc re)"
  by (simp add: try_pattern_def Let_def)

lemma try_pattern_covers:
  "length (splits_of re doc) < 200 \<Longrightarrow> length (splits_of re doc) \<le> length (try_pattern doc acc re)"
  by (simp add: try_pattern_def Let_def)

lemma foldl_try_mono: "length acc \<le> length (foldl (try_pattern doc) acc res)"
proof (induction res arbitrary: acc)
  case Nil
  show ?case by simp
next
  case (Cons re res)
  have "length acc \<le> length (try_pattern doc acc re)" by (rule try_pattern_mono)
  also have "\<dots> \<le> length (foldl (try_pattern doc) (try_pattern doc acc re) res)"
    by (rule Cons.IH)
  finally show ?case by simp
qed

lemma foldl_try_covers:
  "re \<in> set res \<Longrightarrow> length (splits_of re doc) < 200 \<Longrightarrow>
   length (splits_of re doc) \<le> length (foldl (try_pattern doc) acc res)"
proof (induction res arbitrary: acc)
  case Nil
  then show ?case by simp
next
  case (Cons r res)
  show ?case
  proof (cases "re = r")
    case True
    have "length (splits_of re doc) \<le> length (try_pattern doc acc r)"
      using True Cons.prems(2) by (simp add: try_pattern_covers)
    also have "\<dots> \<le> length (foldl (try_pattern doc) (try_pattern doc acc r) res)"
      by (rule foldl_try_mono)
    finally show ?thesis by simp
  next
    case False
    with Cons.prems have "re \<in> set res" by simp
    from Cons.IH[OF this Cons.prems(2)] show ?thesis by simp
  qed
qed

lemma foldl_try_origin:
  "foldl (try_pattern doc) acc res = acc \<or>
   (\<exists>re \<in> set res. foldl (try_pattern doc) acc res = splits_of re doc
       \<and> length (splits_of re doc) < 200)"
proof (induction res arbitrary: acc)
  case Nil
  show ?case by simp
next
  case (Cons r res)
  from Cons.IH[of "try_pattern doc acc r"] try_pattern_cases[of doc acc r]
  show ?case by auto
qed

lemma two_conventions_sign: "length (splits_of re_section_sign two_conventions_doc) = 1"
  by code_simp

lemma two_conventions_article: "length (splits_of re_article two_conventions_doc) = 2"
  by code_simp

lemma two_conventions_dotted: "map (\<lambda>s. length (trim s)) (splits_of re_dotted two_conventions_doc) = [113, 65, 67]"
  by code_simp

lemma two_conventions_enum: "length (splits_of re_enum two_conventions_doc) = 1"
  by code_simp

lemma two_conventions_length: "50 \<le> length two_conventions_doc"
  by (simp add: two_conventions_doc_def)

lemma two_conventions_dotted_count: "length (splits_of re_dotted two_conventions_doc) = 3"
  using arg_cong[OF two_conventions_dotted, of length] by simp

lemma two_conventions_select:
  "select_sections two_conventions_doc = splits_of re_dotted two_conventions_doc"
  by (simp add: select_sections_def sectionPatterns_def try_pattern_def
      two_conventions_sign two_conventions_article two_conventions_dotted_count
      two_conventions_enum)

lemma two_conventions_kept:
  "\<forall>s \<in> set (splits_of re_dotted two_conventions_doc). 50 < length (trim s)"
proof
  fix s assume "s \<in> set (splits_of re_dotted two_conventions_doc)"
  then have "length (trim s)
      \<in> set (map (\<lambda>s. length (trim s)) (splits_of re_dotted two_conventions_doc))"
    by simp
  then show "50 < length (trim s)" by (simp only: two_conventions_dotted) auto
qed

lemma concat_split_lookahead: "concat (split_lookahead re acc s) = rev acc @ s"
  by (induction s arbitrary: acc) simp_all

lemma length_trim_le: "length (trim s) \<le> length s"
proof -
  have "length (dropWhile is_space (rev (dropWhile is_space s)))
          \<le> length (rev (dropWhile is_space s))"
    by (rule length_dropWhile_le)
  also have "\<dots> \<le> length s" by (simp add: length_dropWhile_le)
  finally show ?thesis by (simp add: trim_def)
qed

lemma sum_length_filter: "sum_list (map length (filter P xs)) \<le> sum_list (map length xs)"
  by (induction xs) simp_all

lemma splits_of_total: "sum_list (map length (splits_of re doc)) \<le> length doc"
proof -
  have "sum_list (map length (splits_of re doc))
          \<le> sum_list (map length (split_lookahead re [] doc))"
    unfolding splits_of_def by (rule sum_length_filter)
  also have "\<dots> = length (concat (split_lookahead re [] doc))"
    by (simp add: length_concat)
  also have "\<dots> = length doc" by (simp add: concat_split_lookahead)
  finally show ?thesis .
qed

lemma splits_of_long: "s \<in> set (splits_of re doc) \<Longrightarrow> 30 < length s"
proof -
  assume "s \<in> set (splits_of re doc)"
  then have "30 < length (trim s)" by (simp add: splits_of_def)
  with length_trim_le[of s] show ?thesis by simp
qed

lemma sum_length_lower:
  "(\<And>s. s \<in> set xs \<Longrightarrow> 30 < length s) \<Longrightarrow> 31 * length xs \<le> sum_list (map length xs)"
proof (induction xs)
  case Nil
  show ?case by simp
next
  case (Cons x xs)
  have "30 < length x" using Cons.prems by simp
  moreover have "31 * length xs \<le> sum_list (map length xs)"
    using Cons.prems by (intro Cons.IH) simp
  ultimately show ?case by simp
qed

lemma two_segments_long_doc:
  assumes "1 < length (splits_of re doc)"
  shows "50 \<le> length doc"
proof -
  have "31 * length (splits_of re doc) \<le> sum_list (map length (splits_of re doc))"
    by (rule sum_length_lower) (rule splits_of_long)
  with splits_of_total[of re doc] assms show ?thesis by simp
qed

lemma extractAndChunk_selected:
  assumes "final_sections doc = Some secs" and "50 \<le> length doc"
  shows "extractAndChunk (Some doc) src chap t u
           = Some (filter (\<lambda>p. 50 < content_length p) (provisions_of src chap t u secs))"
  using assms by (auto simp: extractAndChunk_def)

lemma length_filter_enumerate:
  "length (filter (\<lambda>ic. Q (snd ic)) (enumerate n xs)) = length (filter Q xs)"
  by (induction xs arbitrary: n) simp_all

lemma length_kept_provisions:
  "length (filter (\<lambda>p. 50 < content_length p) (provisions_of src chap t u secs))
     = length (filter (\<lambda>s. 50 < length (trim s)) secs)"
proof -
  have "filter (\<lambda>p. 50 < content_length p) (provisions_of src chap t u secs)
          = map (make_provision src chap t u)
              (filter (\<lambda>ic. 50 < length (trim (snd ic))) (enumerate 0 secs))"
    unfolding provisions_of_def filter_map
    by (rule arg_cong[where f = "map (make_provision src chap t u)"], rule filter_cong)
       (auto simp: content_length_make_provision)
  then show ?thesis
    by (simp add: length_filter_enumerate[of "\<lambda>s. 50 < length (trim s)"])
qed

lemma two_sections_sign:
  "map (\<lambda>s. length (trim s)) (splits_of re_section_sign two_sections_doc) = [48, 54]"
  by code_simp

lemma two_sections_article: "length (splits_of re_article two_sections_doc) = 1"
  by code_simp

lemma two_sections_dotted: "length (splits_of re_dotted two_sections_doc) = 1"
  by code_simp

lemma two_sections_enum: "length (splits_of re_enum two_sections_doc) = 1"
  by code_simp

lemma two_sections_sign_count: "length (splits_of re_section_sign two_sections_doc) = 2"
  using arg_cong[OF two_sections_sign, of length] by simp

lemma two_sections_select:
  "select_sections two_sections_doc = splits_of re_section_sign two_sections_doc"
  by (simp add: select_sections_def sectionPatterns_def try_pattern_def
      two_sections_sign_count two_sections_article two_sections_dotted two_sections_enum)

lemma length_filter_trimmed:
  "length (filter (\<lambda>s. 50 < length (trim s)) secs)
     = length (filter (\<lambda>n. 50 < n) (map (\<lambda>s. length (trim s)) secs))"
  by (simp add: filter_map comp_def)

lemma two_sections_kept:
  "length (filter (\<lambda>s. 50 < length (trim s)) (select_sections two_sections_doc)) = 1"
  by (simp add: length_filter_trimmed two_sections_select two_sections_sign)

lemma two_conventions_all_kept:
  "length (filter (\<lambda>s. 50 < length (trim s)) (select_sections two_conventions_doc)) = 3"
  by (simp add: length_filter_trimmed two_conventions_select two_conventions_dotted)

text \<open>
  C7, as stated, fails, in both directions.

  More than \<open>k\<close>: in \<open>two_conventions_doc\<close> the article pattern finds 2 valid segments,
  yet the loop over the patterns keeps the 3 segments of the dotted-number pattern, and
  \<open>extractAndChunk\<close> returns 3 provisions.

  Fewer than \<open>k\<close>: in \<open>two_sections_doc\<close> the section-sign pattern finds 2 valid
  segments, of 48 and 54 characters once trimmed, and no other pattern finds more than
  one. Both are longer than the 30 characters asked of a segment, but the final filter
  of \<open>extractAndChunk\<close> keeps a provision only when its text is longer than 50
  characters, so 1 provision is returned.
\<close>

theorem segment_count_counterexample:
  "re_article \<in> set sectionPatterns \<and>
   length (splits_of re_article two_conventions_doc) = 2 \<and>
   length (select_sections two_conventions_doc) = 3 \<and>
   map_option length (extractAndChunk (Some two_conventions_doc)
       ''municipal_code'' ''Chapter 591'' ''Noise'' ''ch591.pdf'') = Some 3 \<and>
   re_section_sign \<in> set sectionPatterns \<and>
   length (splits_of re_section_sign two_sections_doc) = 2 \<and>
   map (\<lambda>s. length (trim s)) (splits_of re_section_sign two_sections_doc) = [48, 54] \<and>
   length (splits_of re_article two_sections_doc) = 1 \<and>
   length (splits_of re_dotted two_sections_doc) = 1 \<and>
   length (splits_of re_enum two_sections_doc) = 1 \<and>
   length (select_sections two_sections_doc) = 2 \<and>
   map_option length (extractAndChunk (Some two_sections_doc)
       ''municipal_code'' ''Chapter 591'' ''Noise'' ''ch591.pdf'') = Some 1"
proof -
  have fs: "final_sections two_conventions_doc
              = Some (select_sections two_conventions_doc)"
    by (simp add: final_sections_def two_conventions_select two_conventions_dotted_count)
  have a: "map_option length (extractAndChunk (Some two_conventions_doc)
          ''municipal_code'' ''Chapter 591'' ''Noise'' ''ch591.pdf'') = Some 3"
    by (simp add: extractAndChunk_selected[OF fs two_conventions_length]
        length_kept_provisions two_conventions_all_kept)
  have fs2: "final_sections two_sections_doc = Some (select_sections two_sections_doc)"
    by (simp add: final_sections_def two_sections_select two_sections_sign_count)
  have len: "50 \<le> length two_sections_doc" by (simp add: two_sections_doc_def)
  have b: "map_option length (extractAndChunk (Some two_sections_doc)
          ''municipal_code'' ''Chapter 591'' ''Noise'' ''ch591.pdf'') = Some 1"
    by (simp add: extractAndChunk_selected[OF fs2 len]
        length_kept_provisions two_sections_kept)
  show ?thesis
    using a b
    by (simp add: sectionPatterns_def two_conventions_article two_conventions_select
        two_conventions_dotted_count two_sections_select two_sections_sign_count
        two_sections_sign two_sections_article two_sections_dotted two_sections_enum)
qed

text \<open>
  C7, amended. When some pattern finds \<open>k\<close> valid segments with \<open>1 < k < 200\<close>,
  \<open>extractAndChunk\<close> returns, and it never falls back to the whole document or to
  fixed-size chunks: the segments it maps to provisions are those of one of the patterns,
  fewer than 200 and at least \<open>k\<close> of them, exactly \<open>k\<close> when no pattern finds more than
  \<open>k\<close> segments while staying below 200. Its output holds one provision for each of these
  segments whose trimmed text is longer than 50 characters, and no other. So the output
  count is the number of selected segments when each of them is longer than 50 characters
  once trimmed, and it is \<open>k\<close> when, in addition, no pattern finds more than \<open>k\<close>.
\<close>

theorem segment_count_best_pattern:
  "re \<in> set sectionPatterns \<Longrightarrow> length (splits_of re doc) = k \<Longrightarrow> 1 < k \<Longrightarrow> k < 200 \<Longrightarrow>
     final_sections doc = Some (select_sections doc) \<and>
     k \<le> length (select_sections doc) \<and>
     (\<exists>re' \<in> set sectionPatterns. select_sections doc = splits_of re' doc
         \<and> length (splits_of re' doc) < 200) \<and>
     ((\<forall>re' \<in> set sectionPatterns.
          length (splits_of re' doc) < 200 \<longrightarrow> length (splits_of re' doc) \<le> k)
        \<longrightarrow> length (select_sections doc) = k) \<and>
     extractAndChunk (Some doc) src chap t u
       = Some (filter (\<lambda>p. 50 < content_length p)
                 (provisions_of src chap t u (select_sections doc))) \<and>
     map_option length (extractAndChunk (Some doc) src chap t u)
       = Some (length (filter (\<lambda>s. 50 < length (trim s)) (select_sections doc))) \<and>
     ((\<forall>s \<in> set (select_sections doc). 50 < length (trim s))
        \<longrightarrow> map_option length (extractAndChunk (Some doc) src chap t u)
              = Some (length (select_sections doc))) \<and>
     ((\<forall>re' \<in> set sectionPatterns.
          length (splits_of re' doc) < 200 \<longrightarrow> length (splits_of re' doc) \<le> k) \<and>
      (\<forall>s \<in> set (select_sections doc). 50 < length (trim s))
        \<longrightarrow> map_option length (extractAndChunk (Some doc) src chap t u) = Some k)"
proof -
  assume re: "re \<in> set sectionPatterns" and k: "length (splits_of re doc) = k"
    and lo: "1 < k" and hi: "k < 200"
  have ge: "k \<le> length (select_sections doc)"
    using foldl_try_covers[of re sectionPatterns doc "[doc]"] re k hi
    by (simp add: select_sections_def)
  with lo have fin: "final_sections doc = Some (select_sections doc)"
    by (simp add: final_sections_def Let_def)
  from ge lo have "select_sections doc \<noteq> [doc]" by auto
  with foldl_try_origin[of doc "[doc]" sectionPatterns]
  have orig: "\<exists>re' \<in> set sectionPatterns. select_sections doc = splits_of re' doc
           \<and> length (splits_of re' doc) < 200"
    by (simp add: select_sections_def)
  have best: "length (select_sections doc) = k"
    if "\<forall>re' \<in> set sectionPatterns.
            length (splits_of re' doc) < 200 \<longrightarrow> length (splits_of re' doc) \<le> k"
    using that orig ge by auto
  have long: "50 \<le> length doc"
    using lo k by (intro two_segments_long_doc[of re]) simp
  have out: "extractAndChunk (Some doc) src chap t u
       = Some (filter (\<lambda>p. 50 < content_length p)
                 (provisions_of src chap t u (select_sections doc)))"
    using fin long by (rule extractAndChunk_selected)
  have count: "map_option length (extractAndChunk (Some doc) src chap t u)
       = Some (length (filter (\<lambda>s. 50 < length (trim s)) (select_sections doc)))"
    by (simp add: out length_kept_provisions)
  have full: "map_option length (extractAndChunk (Some doc) src chap t u)
              = Some (length (select_sections doc))"
    if "\<forall>s \<in> set (select_sections doc). 50 < length (trim s)"
  proof -
    from that have "filter (\<lambda>s. 50 < length (trim s)) (select_sections doc)
        = select_sections doc" by (simp add: filter_id_conv)
    with count show ?thesis by simp
  qed
  have exact: "map_option length (extractAndChunk (Some doc) src chap t u) = Some k"
    if "(\<forall>re' \<in> set sectionPatterns.
          length (splits_of re' doc) < 200 \<longrightarrow> length (splits_of re' doc) \<le> k) \<and>
      (\<forall>s \<in> set (select_sections doc). 50 < length (trim s))"
    using that best full by simp
  show ?thesis
  proof (intro conjI impI)
    show "final_sections doc = Some (select_sections doc)" by (rule fin)
    show "k \<le> length (select_sections doc)" by (rule ge)
    show "\<exists>re' \<in> set sectionPatterns. select_sections doc = splits_of re' doc
           \<and> length (splits_of re' doc) < 200" by (rule orig)
    show "length (select_sections doc) = k"
      if "\<forall>re' \<in> set sectionPatterns.
            length (splits_of re' doc) < 200 \<longrightarrow> length (splits_of re' doc) \<le> k"
      using that by (rule best)
    show "extractAndChunk (Some doc) src chap t u
       = Some (filter (\<lambda>p. 50 < content_length p)
                 (provisions_of src chap t u (select_sections doc)))" by (rule out)
    show "map_option length (extractAndChunk (Some doc) src chap t u)
       = Some (length (filter (\<lambda>s. 50 < length (trim s)) (select_sections doc)))"
      by (rule count)
    show "map_option length (extractAndChunk (Some doc) src chap t u)
              = Some (length (select_sections doc))"
      if "\<forall>s \<in> set (select_sections doc). 50 < length (trim s)"
      using that by (rule full)
    show "map_option length (extractAndChunk (Some doc) src chap t u) = Some k"
      if "(\<forall>re' \<in> set sectionPatterns.
          length (splits_of re' doc) < 200 \<longrightarrow> length (splits_of re' doc) \<le> k) \<and>
        (\<forall>s \<in> set (select_sections doc). 50 < length (trim s))"
      using that by (rule exact)
  qed
qed

theorem segment_count_best_pattern_witness:
  "re_dotted \<in> set sectionPatterns \<and>
   length (splits_of re_section_sign two_conventions_doc) = 1 \<and>
   length (splits_of re_article two_conventions_doc) = 2 \<and>
   length (splits_of re_dotted two_conventions_doc) = 3 \<and>
   length (splits_of re_enum two_conventions_doc) = 1 \<and>
   map (\<lambda>s. length (trim s)) (select_sections two_conventions_doc) = [113, 65, 67] \<and>
   final_sections two_conventions_doc = Some (select_sections two_conventions_doc) \<and>
   length (select_sections two_conventions_doc) = 3 \<and>
   extractAndChunk (Some two_conventions_doc) ''municipal_code'' ''Chapter 591'' ''Noise''
       ''ch591.pdf''
     = Some (filter (\<lambda>p. 50 < content_length p)
               (provisions_of ''municipal_code'' ''Chapter 591'' ''Noise'' ''ch591.pdf''
                  (select_sections two_conventions_doc))) \<and>
   map_option length (extractAndChunk (Some two_conventions_doc)
       ''municipal_code'' ''Chapter 591'' ''Noise'' ''ch591.pdf'') = Some 3 \<and>
   re_section_sign \<in> set sectionPatterns \<and>
   length (splits_of re_section_sign two_sections_doc) = 2 \<and>
   map_option length (extractAndChunk (Some two_sections_doc)
       ''municipal_code'' ''Chapter 591'' ''Noise'' ''ch591.pdf'')
     = Some (length (filter (\<lambda>s. 50 < length (trim s)) (select_sections two_sections_doc))) \<and>
   length (filter (\<lambda>s. 50 < length (trim s)) (select_sections two_sections_doc)) = 1"
proof -
  have m: "re_dotted \<in> set sectionPatterns" by (simp add: sectionPatterns_def)
  have b: "\<forall>re' \<in> set sectionPatterns. length (splits_of re' two_conventions_doc) < 200 \<longrightarrow>
        length (splits_of re' two_conventions_doc) \<le> 3"
    by (simp add: sectionPatterns_def two_conventions_sign two_conventions_article
        two_conventions_dotted_count two_conventions_enum)
  have c: "\<forall>s \<in> set (select_sections two_conventions_doc). 50 < length (trim s)"
    using two_conventions_kept by (simp only: two_conventions_select)
  have d: "map (\<lambda>s. length (trim s)) (select_sections two_conventions_doc) = [113, 65, 67]"
    by (simp only: two_conventions_select two_conventions_dotted)
  have lo: "(1::nat) < 3" and hi: "(3::nat) < 200" by simp_all
  note th = segment_count_best_pattern[OF m two_conventions_dotted_count lo hi,
      of "''municipal_code''" "''Chapter 591''" "''Noise''" "''ch591.pdf''"]
  note fin = th[THEN conjunct1]
  note sel = th[THEN conjunct2, THEN conjunct2, THEN conjunct2, THEN conjunct1]
  note out = th[THEN conjunct2, THEN conjunct2, THEN conjunct2, THEN conjunct2,
      THEN conjunct1]
  note cnt = th[THEN conjunct2, THEN conjunct2, THEN conjunct2, THEN conjunct2,
      THEN conjunct2, THEN conjunct2, THEN conjunct2]
  have n: "length (select_sections two_conventions_doc) = 3" using b by (rule sel[THEN mp])
  have k: "map_option length (extractAndChunk (Some two_conventions_doc)
       ''municipal_code'' ''Chapter 591'' ''Noise'' ''ch591.pdf'') = Some 3"
    using conjI[OF b c] by (rule cnt[THEN mp])
  have m2: "re_section_sign \<in> set sectionPatterns" by (simp add: sectionPatterns_def)
  have lo2: "(1::nat) < 2" and hi2: "(2::nat) < 200" by simp_all
  note th2 = segment_count_best_pattern[OF m2 two_sections_sign_count lo2 hi2,
      of "''municipal_code''" "''Chapter 591''" "''Noise''" "''ch591.pdf''"]
  note cnt2 = th2[THEN conjunct2, THEN conjunct2, THEN conjunct2, THEN conjunct2,
      THEN conjunct2, THEN conjunct1]
  show ?thesis
    by (intro conjI m two_conventions_sign two_conventions_article
        two_conventions_dotted_count two_conventions_enum d fin n out k
        m2 two_sections_sign_count cnt2 two_sections_kept)
qed

section \<open>Properties of the index store\<close>

subsection \<open>Bulk insert\<close>

lemma insert_run_indep: "insert_run refuses d v = Inl e \<Longrightarrow> insert_run refuses db v = Inl e"
  by (auto simp: insert_run_def split: if_splits)

lemma insert_items_stops:
  "item \<in> set items \<Longrightarrow> insert_run refuses d (bind_values item) = Inl e0 \<Longrightarrow>
   \<exists>e db'. insert_items refuses db items = (Some e, db')"
proof (induction items arbitrary: db)
  case Nil
  then show ?case by simp
next
  case (Cons x xs)
  show ?case
  proof (cases "insert_run refuses db (bind_values x)")
    case (Inl e)
    then show ?thesis by simp
  next
    case (Inr db1)
    with Cons.prems insert_run_indep[of refuses d "bind_values item" e0 db]
    have "item \<in> set xs" by auto
    from Cons.IH[OF this Cons.prems(2)] Inr show ?thesis by simp
  qed
qed

text \<open>
  C5. Whenever \<open>bulkInsert\<close> throws, the store is the one it started from; and it
  throws as soon as the insert of one record of the batch fails, wherever the record
  stands in the batch.
\<close>

theorem bulkInsert_all_or_nothing:
  "(\<forall>e db'. bulkInsert refuses db items = (Inl e, db') \<longrightarrow> db' = db) \<and>
   ((\<exists>item \<in> set items. \<exists>d e0. insert_run refuses d (bind_values item) = Inl e0)
      \<longrightarrow> (\<exists>e. bulkInsert refuses db items = (Inl e, db)))"
proof -
  have a: "db' = db" if "bulkInsert refuses db items = (Inl e, db')" for e db'
    using that by (auto simp: bulkInsert_def transaction_def split: prod.splits option.splits)
  have b: "\<exists>e. bulkInsert refuses db items = (Inl e, db)"
    if "item \<in> set items" "insert_run refuses d (bind_values item) = Inl e0" for item d e0
  proof -
    from insert_items_stops[OF that] obtain e db' where
      "insert_items refuses db items = (Some e, db')" by blast
    then show ?thesis by (simp add: bulkInsert_def transaction_def)
  qed
  from a b show ?thesis by blast
qed

lemma bad_item_fails: "insert_run (\<lambda>_. False) two_row_store (bind_values bad_item) = Inl ConstraintError"
  by code_simp

theorem bulkInsert_all_or_nothing_witness:
  "insert_run (\<lambda>_. False) two_row_store (bind_values bad_item) = Inl ConstraintError \<and>
   bulkInsert (\<lambda>_. False) two_row_store [good_item, bad_item]
     = (Inl ConstraintError, two_row_store) \<and>
   length (provisions (snd (bulkInsert (\<lambda>_. False) two_row_store [good_item]))) = 3"
proof -
  have m: "\<exists>item \<in> set [good_item, bad_item]. \<exists>d e0.
      insert_run (\<lambda>_. False) d (bind_values item) = Inl e0"
    using bad_item_fails by auto
  from bulkInsert_all_or_nothing[of "\<lambda>_. False" two_row_store "[good_item, bad_item]"] m
  obtain e where e: "bulkInsert (\<lambda>_. False) two_row_store [good_item, bad_item]
      = (Inl e, two_row_store)" by blast
  have "fst (bulkInsert (\<lambda>_. False) two_row_store [good_item, bad_item]) = Inl ConstraintError"
    by code_simp
  with e have "e = ConstraintError" by simp
  moreover have "length (provisions (snd (bulkInsert (\<lambda>_. False) two_row_store [good_item]))) = 3"
    by code_simp
  ultimately show ?thesis using e bad_item_fails by simp
qed

subsection \<open>Search\<close>



lemma set_sql_limit: "set (sql_limit n rows) \<subseteq> set rows"
  by (auto simp: sql_limit_def dest: in_set_takeD)

lemma length_sql_limit: "0 \<le> n \<Longrightarrow> length (sql_limit n rows) \<le> nat n"
  by (simp add: sql_limit_def)

lemma fallback_where_some_term:
  assumes "fallback_where terms src r" and "terms \<noteq> []"
  shows "\<exists>t \<in> set terms. term_condition t r"
proof (cases "js_truthy src")
  case False
  with assms(1) show ?thesis by (simp add: fallback_where_def list_ex_iff)
next
  case True
  with assms(1) consider "list_ex (\<lambda>t. term_condition t r) (butlast terms)"
    | "term_condition (last terms) r"
    by (auto simp: fallback_where_def)
  then show ?thesis
  proof cases
    case 1
    then show ?thesis by (auto simp: list_ex_iff dest: in_set_butlastD)
  next
    case 2
    with assms(2) show ?thesis using last_in_set by blast
  qed
qed

lemma fallback_where_no_source:
  "\<not> js_truthy src \<Longrightarrow> fallback_where terms src = (\<lambda>r. \<exists>t \<in> set terms. term_condition t r)"
  by (rule ext) (simp add: fallback_where_def list_ex_iff)

lemma sql_limit_Nil: "sql_limit n [] = []"
  by (simp add: sql_limit_def)

lemma fallbackSearch_Inr:
  assumes "fallbackSearch sqlite db query limit src = Inr rows" and "raw_terms query \<noteq> []"
  shows "\<exists>n. limit = Limit n \<and> sqlite db (raw_terms query) src limit = None \<and>
           rows = sql_limit n (filter (fallback_where (raw_terms query) src) (provisions db))"
  using assms
  by (auto simp: fallbackSearch_def Let_def split: option.splits js_limit.splits)

lemma fallbackSearch_sound:
  assumes "fallbackSearch sqlite db query limit src = Inr rows" and "r \<in> set rows"
  shows "r \<in> set (provisions db) \<and> (\<exists>t \<in> set (raw_terms query). term_condition t r)"
proof (cases "raw_terms query = []")
  case True
  with assms show ?thesis by (simp add: fallbackSearch_def)
next
  case False
  from fallbackSearch_Inr[OF assms(1) False] obtain n where
    "rows = sql_limit n (filter (fallback_where (raw_terms query) src) (provisions db))"
    by blast
  with assms(2) have "r \<in> set (sql_limit n
      (filter (fallback_where (raw_terms query) src) (provisions db)))" by simp
  then have "r \<in> set (filter (fallback_where (raw_terms query) src) (provisions db))"
    by (rule set_sql_limit[THEN subsetD])
  then have m: "r \<in> set (provisions db)" and w: "fallback_where (raw_terms query) src r"
    by simp_all
  from fallback_where_some_term[OF w False] m show ?thesis by simp
qed

lemma fallbackSearch_length:
  assumes "fallbackSearch sqlite db query (Limit n) src = Inr rows" and "0 \<le> n"
  shows "length rows \<le> nat n"
proof (cases "raw_terms query = []")
  case True
  with assms(1) show ?thesis by (simp add: fallbackSearch_def)
next
  case False
  from fallbackSearch_Inr[OF assms(1) False] have
    "rows = sql_limit n (filter (fallback_where (raw_terms query) src) (provisions db))"
    by simp
  then show ?thesis using length_sql_limit[OF assms(2)] by simp
qed

lemma fallbackSearch_no_source:
  assumes "fallbackSearch sqlite db query (Limit n) src = Inr rows" and "\<not> js_truthy src"
  shows "rows = sql_limit n (filter (\<lambda>r. \<exists>t \<in> set (raw_terms query). term_condition t r)
                                    (provisions db))"
proof (cases "raw_terms query = []")
  case True
  with assms(1) show ?thesis by (simp add: fallbackSearch_def sql_limit_Nil)
next
  case False
  from fallbackSearch_Inr[OF assms(1) False] have
    "rows = sql_limit n (filter (fallback_where (raw_terms query) src) (provisions db))"
    by simp
  then show ?thesis by (simp add: fallback_where_no_source[OF assms(2)])
qed

lemma fallbackSearch_runs:
  assumes "limit = Limit n \<and> sqlite db (raw_terms query) src limit = None"
  shows "\<exists>rows. fallbackSearch sqlite db query limit src = Inr rows"
  using assms by (auto simp: fallbackSearch_def Let_def)


lemma searchProvisions_caught:
  assumes "cleanQuery query \<noteq> []"
    and "ranked_select engine db (cleanQuery query) src limit = Inl e"
  shows "searchProvisions engine sqlite db query limit src
           = fallbackSearch sqlite db query limit src"
  using assms by (simp add: searchProvisions_def)

lemma ranked_select_rejected:
  "engine db expr = Inl e \<Longrightarrow> ranked_select engine db expr src limit = Inl e"
  by (simp add: ranked_select_def)
















lemma noise_parking_search:
  "searchProvisions rejecting_engine depth_limited_sqlite two_row_store ''noise parking''
     (Limit 5) None = Inr [noise_row, parking_row]"
  by code_simp

lemma noise_parking_clean: "cleanQuery ''noise parking'' \<noteq> []"
  by code_simp

lemma noise_parking_raw: "raw_terms ''noise parking'' = [''noise'', ''parking'']"
  by code_simp





text \<open>
  C1, as stated, fails: the engine rejects the expression of \<open>noise parking\<close>, and the
  fallback returns the noise provision although \<open>parking\<close> occurs in none of its fields.
\<close>

theorem fallback_and_counterexample:
  "cleanQuery ''noise parking'' \<noteq> [] \<and>
   rejecting_engine two_row_store (cleanQuery ''noise parking'') = Inl FtsError \<and>
   searchProvisions rejecting_engine depth_limited_sqlite two_row_store ''noise parking''
     (Limit 5) None = Inr [noise_row, parking_row] \<and>
   \<not> term_condition ''parking'' noise_row \<and>
   \<not> sql_like ''%parking%'' (summary (data noise_row)) \<and>
   \<not> sql_like ''%parking%'' (keywords_f (data noise_row))"
proof -
  have "\<not> term_condition ''parking'' noise_row" by code_simp
  moreover have "\<not> sql_like ''%parking%'' (summary (data noise_row))" by code_simp
  moreover have "\<not> sql_like ''%parking%'' (keywords_f (data noise_row))" by code_simp
  ultimately show ?thesis
    using noise_parking_search noise_parking_clean by (simp add: rejecting_engine_def)
qed

text \<open>
  C1, amended. When the engine rejects the expression, \<open>searchProvisions\<close> does what
  \<open>fallbackSearch\<close> does, and the fallback statement runs whenever the limit is an
  integer and the engine does not refuse it. The rows it returns are rows of the table,
  each of which has at least one of the whitespace-separated pieces of the raw query
  that are longer than 2 characters as a substring (in the sense of \<open>LIKE\<close>) of its
  content, chapter title or section title; at most \<open>limit\<close> of them when \<open>limit\<close> is
  not negative; and, when no source is given, exactly the first \<open>limit\<close> such rows in
  storage order.
\<close>

theorem fallback_or_combined:
  assumes "cleanQuery query \<noteq> []" and "engine db (cleanQuery query) = Inl e"
  shows "searchProvisions engine sqlite db query limit src
           = fallbackSearch sqlite db query limit src \<and>
     (\<forall>rows. fallbackSearch sqlite db query limit src = Inr rows \<longrightarrow>
        (\<forall>r \<in> set rows.
           r \<in> set (provisions db) \<and> (\<exists>t \<in> set (raw_terms query). term_condition t r)) \<and>
        (\<forall>n. limit = Limit n \<and> 0 \<le> n \<longrightarrow> length rows \<le> nat n) \<and>
        (\<forall>n. limit = Limit n \<and> \<not> js_truthy src \<longrightarrow>
           rows = sql_limit n (filter (\<lambda>r. \<exists>t \<in> set (raw_terms query). term_condition t r)
                                      (provisions db)))) \<and>
     (\<forall>n. limit = Limit n \<and> sqlite db (raw_terms query) src limit = None \<longrightarrow>
        (\<exists>rows. fallbackSearch sqlite db query limit src = Inr rows))"
proof (intro conjI allI impI ballI)
  show "searchProvisions engine sqlite db query limit src
           = fallbackSearch sqlite db query limit src"
  proof (rule searchProvisions_caught[OF assms(1)])
    show "ranked_select engine db (cleanQuery query) src limit = Inl e"
      using assms(2) by (simp add: ranked_select_def)
  qed
next
  fix rows r
  assume "fallbackSearch sqlite db query limit src = Inr rows" and "r \<in> set rows"
  from fallbackSearch_sound[OF this] show "r \<in> set (provisions db)" by (rule conjunct1)
next
  fix rows r
  assume "fallbackSearch sqlite db query limit src = Inr rows" and "r \<in> set rows"
  from fallbackSearch_sound[OF this]
  show "\<exists>t \<in> set (raw_terms query). term_condition t r" by (rule conjunct2)
next
  fix rows n
  assume f: "fallbackSearch sqlite db query limit src = Inr rows"
    and l: "limit = Limit n \<and> 0 \<le> n"
  from f l have "fallbackSearch sqlite db query (Limit n) src = Inr rows" by simp
  from fallbackSearch_length[OF this] l show "length rows \<le> nat n" by simp
next
  fix rows n
  assume f: "fallbackSearch sqlite db query limit src = Inr rows"
    and l: "limit = Limit n \<and> \<not> js_truthy src"
  from f l have "fallbackSearch sqlite db query (Limit n) src = Inr rows" by simp
  from fallbackSearch_no_source[OF this] l
  show "rows = sql_limit n (filter (\<lambda>r. \<exists>t \<in> set (raw_terms query). term_condition t r)
                                      (provisions db))" by simp
next
  fix n
  assume "limit = Limit n \<and> sqlite db (raw_terms query) src limit = None"
  then show "\<exists>rows. fallbackSearch sqlite db query limit src = Inr rows"
    by (rule fallbackSearch_runs)
qed

theorem fallback_or_combined_witness:
  "cleanQuery ''noise parking'' \<noteq> [] \<and>
   rejecting_engine two_row_store (cleanQuery ''noise parking'') = Inl FtsError \<and>
   depth_limited_sqlite two_row_store (raw_terms ''noise parking'') None (Limit 5) = None \<and>
   searchProvisions rejecting_engine depth_limited_sqlite two_row_store ''noise parking''
       (Limit 5) None
     = fallbackSearch depth_limited_sqlite two_row_store ''noise parking'' (Limit 5) None \<and>
   fallbackSearch depth_limited_sqlite two_row_store ''noise parking'' (Limit 5) None
     = Inr [noise_row, parking_row] \<and>
   term_condition ''noise'' noise_row \<and> term_condition ''parking'' parking_row \<and>
   length [noise_row, parking_row] \<le> nat 5"
proof -
  have r: "rejecting_engine two_row_store (cleanQuery ''noise parking'') = Inl FtsError"
    by (simp add: rejecting_engine_def)
  have a: "depth_limited_sqlite two_row_store (raw_terms ''noise parking'') None (Limit 5) = None"
    by (simp add: noise_parking_raw depth_limited_sqlite_def)
  note T = fallback_or_combined[where engine = rejecting_engine
      and sqlite = depth_limited_sqlite and db = two_row_store
      and query = "''noise parking''" and e = FtsError and limit = "Limit 5" and src = None,
      OF noise_parking_clean r]
  from T have s: "searchProvisions rejecting_engine depth_limited_sqlite two_row_store
       ''noise parking'' (Limit 5) None
     = fallbackSearch depth_limited_sqlite two_row_store ''noise parking'' (Limit 5) None"
    by (rule conjunct1)
  with noise_parking_search have f:
    "fallbackSearch depth_limited_sqlite two_row_store ''noise parking'' (Limit 5) None
       = Inr [noise_row, parking_row]"
    by simp
  note P = T[THEN conjunct2, THEN conjunct1, rule_format, OF f]
  have t1: "term_condition ''noise'' noise_row" by code_simp
  have t2: "term_condition ''parking'' parking_row" by code_simp
  from P have len: "length [noise_row, parking_row] \<le> nat 5" by simp
  from noise_parking_clean r a s f t1 t2 len show ?thesis by (intro conjI)
qed

text \<open>
  The ranked statement applies the source filter to every row it returns.
\<close>

lemma ranked_select_source:
  assumes "ranked_select engine db expr (Some s) limit = Inr rows" and "s \<noteq> []"
  shows "\<forall>r \<in> set rows. source (data r) = Some s"
proof -
  from assms(1) obtain rank :: "nat \<Rightarrow> int option" and n where
    rows: "rows = sql_limit n (map snd (sort_key fst
                 (List.map_filter
                    (\<lambda>r. if js_truthy (Some s) \<and> source (data r) \<noteq> Some s then None
                         else map_option (\<lambda>k. (k, r)) (rank (rowid r)))
                    (provisions db))))"
    by (auto simp: ranked_select_def split: sum.splits js_limit.splits)
  have "source (data r) = Some s" if "r \<in> set rows" for r
  proof -
    from that rows set_sql_limit have "r \<in> snd ` set (List.map_filter
                    (\<lambda>r. if js_truthy (Some s) \<and> source (data r) \<noteq> Some s then None
                         else map_option (\<lambda>k. (k, r)) (rank (rowid r)))
                    (provisions db))"
      by fastforce
    then show ?thesis using assms(2)
      by (auto simp: List.map_filter_def js_truthy_def split: if_splits)
  qed
  then show ?thesis by blast
qed

text \<open>
  C6 fails on the fallback path: with the source \<open>municipal_code\<close> and the query
  \<open>parking noise\<close>, rejected by the engine, \<open>searchProvisions\<close> returns a provision
  whose source is \<open>zoning_bylaw\<close>.
\<close>

theorem fallback_source_filter_leak:
  "rejecting_engine two_row_store (cleanQuery ''parking noise'') = Inl FtsError \<and>
   searchProvisions rejecting_engine depth_limited_sqlite two_row_store ''parking noise''
       (Limit 5) (Some ''municipal_code'')
     = Inr [noise_row, parking_row] \<and>
   source (data parking_row) = Some ''zoning_bylaw''"
proof -
  have "searchProvisions rejecting_engine depth_limited_sqlite two_row_store ''parking noise''
          (Limit 5) (Some ''municipal_code'') = Inr [noise_row, parking_row]"
    by code_simp
  moreover have "source (data parking_row) = Some ''zoning_bylaw''"
    by (simp add: parking_row_def)
  ultimately show ?thesis by (simp add: rejecting_engine_def)
qed

section \<open>Properties of the ingestion loop\<close>

lemma extractAndChunk_returns: "\<exists>ps. extractAndChunk parsed src chap t u = Some ps"
proof (cases parsed)
  case None
  then show ?thesis by (simp add: extractAndChunk_def)
next
  case (Some doc)
  obtain secs where "final_sections doc = Some secs"
    using final_sections_returns by blast
  with Some show ?thesis by (simp add: extractAndChunk_def)
qed

lemma insert_run_log: "insert_run refuses db v = Inr db' \<Longrightarrow> ingestion_log db' = ingestion_log db"
  by (auto simp: insert_run_def split: if_splits)

lemma insert_items_indep:
  "insert_items refuses db items = (Some e, db') \<Longrightarrow>
   \<exists>d'. insert_items refuses d items = (Some e, d')"
proof (induction items arbitrary: db d)
  case Nil
  then show ?case by simp
next
  case (Cons x xs)
  show ?case
  proof (cases "insert_run refuses db (bind_values x)")
    case (Inl e1)
    with Cons.prems have "e1 = e" by simp
    with Inl insert_run_indep[of refuses db "bind_values x" e d] show ?thesis by simp
  next
    case (Inr db1)
    with Cons.prems have rest: "insert_items refuses db1 xs = (Some e, db')" by simp
    show ?thesis
    proof (cases "insert_run refuses d (bind_values x)")
      case (Inl e2)
      from insert_run_indep[OF Inl, of db] Inr show ?thesis by simp
    next
      case inr2: (Inr d1)
      from Cons.IH[OF rest, of d1] inr2 show ?thesis by simp
    qed
  qed
qed

lemma insert_items_log:
  "insert_items refuses db items = (r, db') \<Longrightarrow> ingestion_log db' = ingestion_log db"
proof (induction items arbitrary: db)
  case Nil
  then show ?case by simp
next
  case (Cons x xs)
  show ?case
  proof (cases "insert_run refuses db (bind_values x)")
    case (Inl e1)
    with Cons.prems show ?thesis by simp
  next
    case (Inr db1)
    with Cons.prems have "insert_items refuses db1 xs = (r, db')" by simp
    from Cons.IH[OF this] insert_run_log[OF Inr] show ?thesis by simp
  qed
qed

lemma bulkInsert_fails_indep:
  assumes "bulkInsert refuses db items = (Inl e, db')"
  shows "bulkInsert refuses d items = (Inl e, d)"
proof -
  from assms obtain db1 where "insert_items refuses db items = (Some e, db1)"
    by (auto simp: bulkInsert_def transaction_def split: prod.splits option.splits)
  from insert_items_indep[OF this, of d] obtain d' where
    "insert_items refuses d items = (Some e, d')" by blast
  then show ?thesis by (simp add: bulkInsert_def transaction_def)
qed

lemma bulkInsert_log:
  assumes "bulkInsert refuses db items = (r, db')"
  shows "ingestion_log db' = ingestion_log db"
proof (cases "insert_items refuses db items")
  case (Pair res db1)
  show ?thesis
  proof (cases res)
    case None
    with Pair assms have "db' = db1" by (simp add: bulkInsert_def transaction_def)
    with insert_items_log[OF Pair] show ?thesis by simp
  next
    case (Some e)
    with Pair assms have "db' = db" by (simp add: bulkInsert_def transaction_def)
    then show ?thesis by simp
  qed
qed

lemma isIngested_logIngestion:
  "isIngested (logIngestion db src chap n) s c
     = (isIngested db s c \<or> (s = src \<and> c = chap))"
  by (auto simp: isIngested_def logIngestion_def list_ex_iff)

lemma isIngested_log_eq:
  "ingestion_log db' = ingestion_log db \<Longrightarrow> isIngested db' s c = isIngested db s c"
  by (simp add: isIngested_def)

lemma bulkInsert_result:
  "bulkInsert refuses db items = (Inr n, db') \<Longrightarrow> n = length items"
  by (auto simp: bulkInsert_def split: prod.splits option.splits)

lemma ingest_unit_cases [consumes 1, case_names kept logged]:
  assumes "ingest_unit fetchPdf pdfParse refuses src (db, c) u = Some (db', c')"
  obtains
    (kept) "db' = db" "c' = c"
      "isIngested db src (unit_chapter u) \<or>
       (\<exists>e. fetchPdf (unit_url u) = Inl e) \<or>
       (\<exists>buf. fetchPdf (unit_url u) = Inr buf \<and>
          extractAndChunk (pdfParse buf) src (unit_chapter u) (unit_title u) (unit_url u)
            = Some []) \<or>
       (\<exists>buf ps e. fetchPdf (unit_url u) = Inr buf \<and>
          extractAndChunk (pdfParse buf) src (unit_chapter u) (unit_title u) (unit_url u)
            = Some ps \<and> ps \<noteq> [] \<and> bulkInsert refuses db ps = (Inl e, db))"
  | (logged) buf ps db'' where
      "\<not> isIngested db src (unit_chapter u)" "fetchPdf (unit_url u) = Inr buf"
      "extractAndChunk (pdfParse buf) src (unit_chapter u) (unit_title u) (unit_url u) = Some ps"
      "ps \<noteq> []" "bulkInsert refuses db ps = (Inr (length ps), db'')"
      "db' = logIngestion db'' src (unit_chapter u) (length ps)" "c' = c + length ps"
proof (cases "isIngested db src (unit_chapter u)")
  case True
  with assms have "db' = db" "c' = c" by (simp_all add: ingest_unit_def)
  with True show ?thesis by (intro kept) simp_all
next
  case fresh: False
  show ?thesis
  proof (cases "fetchPdf (unit_url u)")
    case (Inl e)
    with assms fresh have "db' = db" "c' = c" by (simp_all add: ingest_unit_def)
    with Inl show ?thesis by (intro kept) simp_all
  next
    case (Inr buf)
    from assms fresh Inr obtain ps where
      ps: "extractAndChunk (pdfParse buf) src (unit_chapter u) (unit_title u) (unit_url u)
             = Some ps"
      by (cases "extractAndChunk (pdfParse buf) src (unit_chapter u) (unit_title u) (unit_url u)")
         (simp_all add: ingest_unit_def)
    show ?thesis
    proof (cases "ps = []")
      case True
      with assms fresh Inr ps have "db' = db" "c' = c" by (simp_all add: ingest_unit_def)
      moreover from Inr ps True have "\<exists>buf. fetchPdf (unit_url u) = Inr buf \<and>
          extractAndChunk (pdfParse buf) src (unit_chapter u) (unit_title u) (unit_url u)
            = Some []" by simp
      ultimately show ?thesis by (intro kept) simp_all
    next
      case nonempty: False
      obtain r d where b: "bulkInsert refuses db ps = (r, d)" by (cases "bulkInsert refuses db ps")
      show ?thesis
      proof (cases r)
        case (Inl e)
        from bulkInsert_fails_indep[OF b[unfolded Inl], of db] b Inl
        have d: "d = db" by simp
        with assms fresh Inr ps nonempty b Inl have "db' = db" "c' = c"
          by (simp_all add: ingest_unit_def)
        moreover from Inr ps nonempty b Inl d have
          "\<exists>buf ps e. fetchPdf (unit_url u) = Inr buf \<and>
             extractAndChunk (pdfParse buf) src (unit_chapter u) (unit_title u) (unit_url u)
               = Some ps \<and> ps \<noteq> [] \<and> bulkInsert refuses db ps = (Inl e, db)"
          by (intro exI[of _ buf] exI[of _ ps] exI[of _ e]) simp
        ultimately show ?thesis by (intro kept) simp_all
      next
        case inr: (Inr n)
        from bulkInsert_result[OF b[unfolded inr]] have n: "n = length ps" .
        from assms fresh Inr ps nonempty b inr
        have "db' = logIngestion d src (unit_chapter u) (length ps)" "c' = c + length ps"
          by (simp_all add: ingest_unit_def)
        with fresh Inr ps nonempty b inr n show ?thesis by (intro logged[of buf ps d]) simp_all
      qed
    qed
  qed
qed

lemma ingest_unit_returns:
  "\<exists>st'. ingest_unit fetchPdf pdfParse refuses src st u = Some st'"
proof (cases st)
  case (Pair db c)
  show ?thesis
  proof (cases "fetchPdf (unit_url u)")
    case (Inl e)
    with Pair show ?thesis by (simp add: ingest_unit_def)
  next
    case (Inr buf)
    from extractAndChunk_returns obtain ps where
      "extractAndChunk (pdfParse buf) src (unit_chapter u) (unit_title u) (unit_url u) = Some ps"
      by blast
    with Pair Inr show ?thesis
      by (cases "bulkInsert refuses db ps") (auto simp: ingest_unit_def split: sum.splits)
  qed
qed

lemma ingest_unit_skip:
  "isIngested db src (unit_chapter u) \<Longrightarrow>
   ingest_unit fetchPdf pdfParse refuses src (db, c) u = Some (db, c)"
  by (simp add: ingest_unit_def)

lemma ingest_unit_mono:
  assumes "ingest_unit fetchPdf pdfParse refuses src (db, c) u = Some (db', c')"
    and "isIngested db s ch"
  shows "isIngested db' s ch"
  using assms(1)
proof (cases rule: ingest_unit_cases)
  case kept
  with assms(2) show ?thesis by simp
next
  case (logged buf ps db'')
  from isIngested_log_eq[OF bulkInsert_log[OF logged(5)], of s ch] assms(2)
  have "isIngested db'' s ch" by simp
  with logged(6) show ?thesis by (simp add: isIngested_logIngestion)
qed

lemma ingest_unit_settled:
  assumes "ingest_unit fetchPdf pdfParse refuses src (db, c) u = Some (db', c')"
    and ext: "\<And>s ch. isIngested db' s ch \<Longrightarrow> isIngested d s ch"
  shows "ingest_unit fetchPdf pdfParse refuses src (d, k) u = Some (d, k)"
proof (cases "isIngested d src (unit_chapter u)")
  case True
  then show ?thesis by (rule ingest_unit_skip)
next
  case fresh: False
  from assms(1) show ?thesis
  proof (cases rule: ingest_unit_cases)
    case (logged buf ps db'')
    from logged(6) have "isIngested db' src (unit_chapter u)"
      by (simp add: isIngested_logIngestion)
    with ext fresh show ?thesis by blast
  next
    case kept
    from kept(3) show ?thesis
    proof (elim disjE exE conjE)
      assume "isIngested db src (unit_chapter u)"
      with kept(1) ext fresh show ?thesis by blast
    next
      fix e assume "fetchPdf (unit_url u) = Inl e"
      with fresh show ?thesis by (simp add: ingest_unit_def)
    next
      fix buf assume "fetchPdf (unit_url u) = Inr buf"
        "extractAndChunk (pdfParse buf) src (unit_chapter u) (unit_title u) (unit_url u) = Some []"
      with fresh show ?thesis by (simp add: ingest_unit_def)
    next
      fix buf ps e assume f: "fetchPdf (unit_url u) = Inr buf"
        and x: "extractAndChunk (pdfParse buf) src (unit_chapter u) (unit_title u) (unit_url u)
                  = Some ps"
        and n: "ps \<noteq> []" and b: "bulkInsert refuses db ps = (Inl e, db)"
      from bulkInsert_fails_indep[OF b, of d]
      have "bulkInsert refuses d ps = (Inl e, d)" .
      with f x n fresh show ?thesis by (simp add: ingest_unit_def)
    qed
  qed
qed

lemma ingest_loop_returns:
  "\<exists>st'. ingest_loop fetchPdf pdfParse refuses src st us = Some st'"
proof (induction us arbitrary: st)
  case Nil
  show ?case by simp
next
  case (Cons u us)
  from ingest_unit_returns obtain st1 where
    "ingest_unit fetchPdf pdfParse refuses src st u = Some st1" by blast
  with Cons.IH[of st1] show ?case by simp
qed

lemma ingest_unit_returns_pair:
  obtains db1 c1 where "ingest_unit fetchPdf pdfParse refuses src st u = Some (db1, c1)"
proof -
  from ingest_unit_returns obtain st1 where
    s: "ingest_unit fetchPdf pdfParse refuses src st u = Some st1" by blast
  obtain db1 c1 where "st1 = (db1, c1)" by (cases st1)
  with s that show ?thesis by simp
qed

lemma ingest_loop_mono:
  "ingest_loop fetchPdf pdfParse refuses src (db, c) us = Some (db', c') \<Longrightarrow>
   isIngested db s ch \<Longrightarrow> isIngested db' s ch"
proof (induction us arbitrary: db c)
  case Nil
  then show ?case by simp
next
  case (Cons u us)
  obtain db1 c1 where
    step: "ingest_unit fetchPdf pdfParse refuses src (db, c) u = Some (db1, c1)"
    by (rule ingest_unit_returns_pair)
  with Cons.prems(1) have rest:
    "ingest_loop fetchPdf pdfParse refuses src (db1, c1) us = Some (db', c')" by simp
  from ingest_unit_mono[OF step Cons.prems(2)] have "isIngested db1 s ch" .
  from Cons.IH[OF rest this] show ?case .
qed

lemma ingest_loop_noop:
  assumes "\<And>u. u \<in> set us \<Longrightarrow>
      ingest_unit fetchPdf pdfParse refuses src (d, k) u = Some (d, k)"
  shows "ingest_loop fetchPdf pdfParse refuses src (d, k) us = Some (d, k)"
  using assms by (induction us) simp_all

lemma ingest_loop_settles:
  assumes "ingest_loop fetchPdf pdfParse refuses src (db, c) us = Some (db', c')"
    and "u \<in> set us"
  shows "ingest_unit fetchPdf pdfParse refuses src (db', k) u = Some (db', k)"
  using assms
proof (induction us arbitrary: db c)
  case Nil
  then show ?case by simp
next
  case (Cons v vs)
  obtain db1 c1 where
    step: "ingest_unit fetchPdf pdfParse refuses src (db, c) v = Some (db1, c1)"
    by (rule ingest_unit_returns_pair)
  with Cons.prems(1) have rest:
    "ingest_loop fetchPdf pdfParse refuses src (db1, c1) vs = Some (db', c')" by simp
  show ?case
  proof (cases "u = v")
    case True
    have "isIngested db' s ch" if "isIngested db1 s ch" for s ch
      using ingest_loop_mono[OF rest that] .
    from ingest_unit_settled[OF step this] True show ?thesis by simp
  next
    case False
    with Cons.prems(2) have "u \<in> set vs" by simp
    from Cons.IH[OF rest this] show ?thesis .
  qed
qed

text \<open>
  C4. A run of the loop over a list of units returns, and a second run over the same list,
  with the same documents and the same refusals of the store, returns the store of the
  first run unchanged and counts no provision. A unit whose source and chapter are in
  the ingestion log is skipped. A round that adds the unit to the log has bulk-inserted
  its provisions before; a round whose bulk insert throws leaves the store, and with it
  the log, as it was, so the unit is tried again by the next run. The three ingestion
  functions run this loop with their own source name.
\<close>

theorem ingestion_idempotent:
  "(\<exists>db1 n1. ingest_loop fetchPdf pdfParse refuses src (db0, 0) units = Some (db1, n1) \<and>
       ingest_loop fetchPdf pdfParse refuses src (db1, 0) units = Some (db1, 0)) \<and>
   (isIngested db src (unit_chapter u) \<longrightarrow>
       ingest_unit fetchPdf pdfParse refuses src (db, c) u = Some (db, c)) \<and>
   (\<forall>db' c'. ingest_unit fetchPdf pdfParse refuses src (db, c) u = Some (db', c') \<and>
       \<not> isIngested db src (unit_chapter u) \<and> isIngested db' src (unit_chapter u) \<longrightarrow>
       (\<exists>buf ps db''. fetchPdf (unit_url u) = Inr buf \<and>
          extractAndChunk (pdfParse buf) src (unit_chapter u) (unit_title u) (unit_url u)
            = Some ps \<and> ps \<noteq> [] \<and>
          bulkInsert refuses db ps = (Inr (length ps), db'') \<and>
          db' = logIngestion db'' src (unit_chapter u) (length ps) \<and> c' = c + length ps)) \<and>
   (\<forall>buf ps e d. \<not> isIngested db src (unit_chapter u) \<and> fetchPdf (unit_url u) = Inr buf \<and>
       extractAndChunk (pdfParse buf) src (unit_chapter u) (unit_title u) (unit_url u)
         = Some ps \<and> ps \<noteq> [] \<and> bulkInsert refuses db ps = (Inl e, d) \<longrightarrow>
       ingest_unit fetchPdf pdfParse refuses src (db, c) u = Some (db, c))"
proof (intro conjI allI impI)
  from ingest_loop_returns obtain st1 where
    "ingest_loop fetchPdf pdfParse refuses src (db0, 0) units = Some st1" by blast
  moreover obtain db1 n1 where "st1 = (db1, n1)" by (cases st1)
  ultimately have
    run: "ingest_loop fetchPdf pdfParse refuses src (db0, 0) units = Some (db1, n1)" by simp
  have "ingest_loop fetchPdf pdfParse refuses src (db1, 0) units = Some (db1, 0)"
    by (rule ingest_loop_noop) (rule ingest_loop_settles[OF run])
  with run show "\<exists>db1 n1. ingest_loop fetchPdf pdfParse refuses src (db0, 0) units
        = Some (db1, n1) \<and>
       ingest_loop fetchPdf pdfParse refuses src (db1, 0) units = Some (db1, 0)"
    by (intro exI[of _ db1] exI[of _ n1] conjI)
next
  assume "isIngested db src (unit_chapter u)"
  then show "ingest_unit fetchPdf pdfParse refuses src (db, c) u = Some (db, c)"
    by (rule ingest_unit_skip)
next
  fix db' c'
  assume a: "ingest_unit fetchPdf pdfParse refuses src (db, c) u = Some (db', c') \<and>
       \<not> isIngested db src (unit_chapter u) \<and> isIngested db' src (unit_chapter u)"
  then have step: "ingest_unit fetchPdf pdfParse refuses src (db, c) u = Some (db', c')"
    and before: "\<not> isIngested db src (unit_chapter u)"
    and after: "isIngested db' src (unit_chapter u)" by simp_all
  from step show "\<exists>buf ps db''. fetchPdf (unit_url u) = Inr buf \<and>
          extractAndChunk (pdfParse buf) src (unit_chapter u) (unit_title u) (unit_url u)
            = Some ps \<and> ps \<noteq> [] \<and>
          bulkInsert refuses db ps = (Inr (length ps), db'') \<and>
          db' = logIngestion db'' src (unit_chapter u) (length ps) \<and> c' = c + length ps"
  proof (cases rule: ingest_unit_cases)
    case kept
    with before after show ?thesis by simp
  next
    case (logged buf ps db'')
    then show ?thesis by (intro exI[of _ buf] exI[of _ ps] exI[of _ db'']) simp
  qed
next
  fix buf ps e d
  assume a: "\<not> isIngested db src (unit_chapter u) \<and> fetchPdf (unit_url u) = Inr buf \<and>
       extractAndChunk (pdfParse buf) src (unit_chapter u) (unit_title u) (unit_url u)
         = Some ps \<and> ps \<noteq> [] \<and> bulkInsert refuses db ps = (Inl e, d)"
  then have b: "bulkInsert refuses db ps = (Inl e, d)" by simp
  from bulkInsert_fails_indep[OF b, of db] b have "d = db" by simp
  with a show "ingest_unit fetchPdf pdfParse refuses src (db, c) u = Some (db, c)"
    by (simp add: ingest_unit_def)
qed

lemma noise_unit_provisions:
  "extractAndChunk (Some noise_doc) ''municipal_code'' (unit_chapter noise_unit)
     (unit_title noise_unit) (unit_url noise_unit)
   = Some [make_provision ''municipal_code'' ''Chapter 591'' ''Noise'' ''ch591.pdf''
             (0, noise_doc)]"
  by (simp add: noise_doc_provisions provisions_of_def noise_unit_def)

lemma noise_unit_first_run:
  "ingest_unit one_document_site Some (\<lambda>_. False) ''municipal_code'' (empty_store, 0) noise_unit
   = Some (\<lparr> provisions = [\<lparr> rowid = 1, data = bind_values
                 (make_provision ''municipal_code'' ''Chapter 591'' ''Noise'' ''ch591.pdf''
                    (0, noise_doc)) \<rparr>],
              seq = 1,
              ingestion_log = [\<lparr> log_source = ''municipal_code'', log_chapter = ''Chapter 591'',
                                 provisions_count = 1 \<rparr>] \<rparr>, 1)"
proof -
  have f: "one_document_site (unit_url noise_unit) = Inr noise_doc"
    by (simp add: one_document_site_def noise_unit_def)
  have n: "\<not> isIngested empty_store ''municipal_code'' (unit_chapter noise_unit)"
    by (simp add: isIngested_def empty_store_def)
  have s: "source (bind_values (make_provision ''municipal_code'' ''Chapter 591'' ''Noise''
              ''ch591.pdf'' (0, noise_doc))) = Some ''municipal_code''"
    and c: "content (bind_values (make_provision ''municipal_code'' ''Chapter 591'' ''Noise''
              ''ch591.pdf'' (0, noise_doc))) \<noteq> None"
    by (simp_all add: bind_values_def make_provision_def)
  have b: "bulkInsert (\<lambda>_. False) empty_store
             [make_provision ''municipal_code'' ''Chapter 591'' ''Noise'' ''ch591.pdf''
                (0, noise_doc)]
           = (Inr 1, \<lparr> provisions = [\<lparr> rowid = 1, data = bind_values
                 (make_provision ''municipal_code'' ''Chapter 591'' ''Noise'' ''ch591.pdf''
                    (0, noise_doc)) \<rparr>], seq = 1, ingestion_log = [] \<rparr>)"
    using s c
    by (simp add: bulkInsert_def transaction_def insert_run_def next_rowid_def empty_store_def)
  show ?thesis
    unfolding ingest_unit_def
    by (simp only: prod.case n if_False f sum.case noise_unit_provisions option.case b)
       (simp add: logIngestion_def noise_unit_def)
qed

lemma noise_unit_refused:
  "bulkInsert (\<lambda>_. True) empty_store
     [make_provision ''municipal_code'' ''Chapter 591'' ''Noise'' ''ch591.pdf'' (0, noise_doc)]
   = (Inl EngineError, empty_store)"
proof -
  have "source (bind_values (make_provision ''municipal_code'' ''Chapter 591'' ''Noise''
              ''ch591.pdf'' (0, noise_doc))) = Some ''municipal_code''"
    and "content (bind_values (make_provision ''municipal_code'' ''Chapter 591'' ''Noise''
              ''ch591.pdf'' (0, noise_doc))) \<noteq> None"
    by (simp_all add: bind_values_def make_provision_def)
  then show ?thesis
    by (simp add: bulkInsert_def transaction_def insert_run_def)
qed

theorem ingestion_idempotent_witness:
  "\<exists>db1. ingest_loop one_document_site Some (\<lambda>_. False) ''municipal_code''
            (empty_store, 0) [noise_unit] = Some (db1, 1) \<and>
     ingest_loop one_document_site Some (\<lambda>_. False) ''municipal_code''
            (db1, 0) [noise_unit] = Some (db1, 0) \<and>
     isIngested db1 ''municipal_code'' (unit_chapter noise_unit) \<and>
     length (provisions db1) = 1 \<and>
     \<not> isIngested empty_store ''municipal_code'' (unit_chapter noise_unit) \<and>
     ingest_unit one_document_site Some (\<lambda>_. True) ''municipal_code''
            (empty_store, 0) noise_unit = Some (empty_store, 0)"
proof -
  let ?db1 = "\<lparr> provisions = [\<lparr> rowid = 1, data = bind_values
                 (make_provision ''municipal_code'' ''Chapter 591'' ''Noise'' ''ch591.pdf''
                    (0, noise_doc)) \<rparr>],
              seq = 1,
              ingestion_log = [\<lparr> log_source = ''municipal_code'', log_chapter = ''Chapter 591'',
                                 provisions_count = 1 \<rparr>] \<rparr>"
  note T = ingestion_idempotent[where fetchPdf = one_document_site and pdfParse = Some
      and src = "''municipal_code''" and db0 = empty_store and units = "[noise_unit]"
      and db = empty_store and c = 0 and u = noise_unit]
  have first: "ingest_loop one_document_site Some (\<lambda>_. False) ''municipal_code''
            (empty_store, 0) [noise_unit] = Some (?db1, 1)"
    by (simp add: noise_unit_first_run)
  from T[where refuses = "\<lambda>_. False", THEN conjunct1] obtain db1 n1 where
    r1: "ingest_loop one_document_site Some (\<lambda>_. False) ''municipal_code''
            (empty_store, 0) [noise_unit] = Some (db1, n1)" and
    r2: "ingest_loop one_document_site Some (\<lambda>_. False) ''municipal_code''
            (db1, 0) [noise_unit] = Some (db1, 0)"
    by blast
  from r1 first have "db1 = ?db1" by (simp only: option.inject prod.inject)
  with r2 have again: "ingest_loop one_document_site Some (\<lambda>_. False) ''municipal_code''
            (?db1, 0) [noise_unit] = Some (?db1, 0)"
    by (simp only:)
  have logged: "isIngested ?db1 ''municipal_code'' (unit_chapter noise_unit)"
    by (simp add: isIngested_def noise_unit_def)
  have fresh: "\<not> isIngested empty_store ''municipal_code'' (unit_chapter noise_unit)"
    by (simp add: isIngested_def empty_store_def)
  have f: "one_document_site (unit_url noise_unit) = Inr noise_doc"
    by (simp add: one_document_site_def noise_unit_def)
  have "[make_provision ''municipal_code'' ''Chapter 591'' ''Noise'' ''ch591.pdf''
           (0, noise_doc)] \<noteq> []" by simp
  with T[where refuses = "\<lambda>_. True", THEN conjunct2, THEN conjunct2, THEN conjunct2,
      rule_format, of noise_doc _ EngineError empty_store]
    fresh f noise_unit_provisions noise_unit_refused
  have refused: "ingest_unit one_document_site Some (\<lambda>_. True) ''municipal_code''
            (empty_store, 0) noise_unit = Some (empty_store, 0)"
    by blast
  from first again logged fresh refused show ?thesis
    by (intro exI[of _ ?db1]) simp
qed

section \<open>Properties of query expansion\<close>

lemma js_lower_idem: "js_lower (js_lower c) = js_lower c"
  by (auto simp: js_lower_def Let_def)

lemma lit_i_lowered: "lit_i w (map js_lower w @ rest) = Some rest"
  by (induction w) (simp_all add: js_lower_idem)

lemma re_test_here: "re x \<Longrightarrow> re_test re x"
  by (cases x) simp_all

lemma re_test_append: "re x \<Longrightarrow> re_test re (pre @ x)"
  by (induction pre) (simp_all add: re_test_here)

lemma trigger_fires:
  assumes "phrase \<in> set ws" and "sublist (toLowerCase phrase) (toLowerCase story)"
  shows "re_test (alt_i ws) (toLowerCase story)"
proof -
  from assms(2) obtain pre post where
    s: "toLowerCase story = pre @ map js_lower phrase @ post"
    by (auto simp: sublist_def toLowerCase_def)
  have "matches (lit_i phrase (map js_lower phrase @ post))"
    by (simp add: matches_def lit_i_lowered)
  with assms(1) have "alt_i ws (map js_lower phrase @ post)"
    unfolding alt_i_def list_ex_iff by (rule bexI[rotated])
  then show ?thesis unfolding s by (rule re_test_append)
qed

lemma set_set_add: "set (set_add ts t) = insert t (set ts)"
  by (auto simp: set_add_def)

lemma set_foldl_set_add: "set (foldl set_add ts xs) = set ts \<union> set xs"
  by (induction xs arbitrary: ts) (auto simp: set_set_add)

lemma apply_mapping_mono: "set ts \<subseteq> set (apply_mapping s ts entry)"
  by (cases entry) (auto simp: apply_mapping_def set_foldl_set_add)

lemma foldl_apply_mapping_mono: "set ts \<subseteq> set (foldl (apply_mapping s) ts entries)"
proof (induction entries arbitrary: ts)
  case Nil
  show ?case by simp
next
  case (Cons e es)
  have "set ts \<subseteq> set (apply_mapping s ts e)" by (rule apply_mapping_mono)
  also have "\<dots> \<subseteq> set (foldl (apply_mapping s) (apply_mapping s ts e) es)" by (rule Cons.IH)
  finally show ?case by simp
qed

lemma foldl_apply_mapping_covers:
  assumes "(patterns, searchTerms) \<in> set entries"
    and "re_test (alt_i (triggers patterns)) s"
  shows "set (js_split_char (CHR '' '') searchTerms) \<subseteq> set (foldl (apply_mapping s) ts entries)"
  using assms(1)
proof (induction entries arbitrary: ts)
  case Nil
  then show ?case by simp
next
  case (Cons e es)
  show ?case
  proof (cases "e = (patterns, searchTerms)")
    case True
    have "set (js_split_char (CHR '' '') searchTerms) \<subseteq> set (apply_mapping s ts e)"
      using True assms(2) by (simp add: apply_mapping_def set_foldl_set_add)
    also have "\<dots> \<subseteq> set (foldl (apply_mapping s) (apply_mapping s ts e) es)"
      by (rule foldl_apply_mapping_mono)
    finally show ?thesis by simp
  next
    case False
    with Cons.prems have "(patterns, searchTerms) \<in> set es" by simp
    from Cons.IH[OF this] show ?thesis by simp
  qed
qed

lemma sublist_js_join: "t \<in> set xs \<Longrightarrow> sublist t (js_join sep xs)"
proof (induction sep xs rule: js_join.induct)
  case (1 sep)
  then show ?case by simp
next
  case (2 sep x)
  then show ?case by simp
next
  case (3 sep x y ys)
  show ?case
  proof (cases "t = x")
    case True
    then show ?thesis by (simp add: sublist_append)
  next
    case False
    with "3.prems" have "t \<in> set (y # ys)" by simp
    from "3.IH"[OF this] have "sublist t (js_join sep (y # ys))" .
    then show ?thesis by (simp add: sublist_append)
  qed
qed

lemma mappings_terms_nonempty:
  "list_all (\<lambda>(patterns, searchTerms).
      list_all (\<lambda>t. t \<noteq> []) (js_split_char (CHR '' '') searchTerms)) mappings"
  by code_simp

lemma js_split_char_nonempty: "js_split_char d s \<noteq> []"
proof -
  have "split_on d acc s \<noteq> []" for acc by (induction s arbitrary: acc) simp_all
  then show ?thesis by (simp add: js_split_char_def)
qed

lemma literal_containment:
  assumes "sublist phrase story"
  shows "sublist (toLowerCase phrase) (toLowerCase story)"
proof -
  from assms obtain ps ss where "story = ps @ phrase @ ss" by (auto simp: sublist_def)
  then have "toLowerCase story = toLowerCase ps @ toLowerCase phrase @ toLowerCase ss"
    by (simp add: toLowerCase_def)
  then show ?thesis unfolding sublist_def by blast
qed

text \<open>
  C9. For every entry of the mapping table and every alternative of its trigger
  expression, a story that contains the alternative (in any letter case) makes
  \<open>extractSearchTerms\<close> return a string that is not empty and contains every expansion
  term of the entry, none of which is empty.
\<close>

theorem expansion_coverage:
  assumes "(patterns, searchTerms) \<in> set mappings"
    and "phrase \<in> set (triggers patterns)"
    and "sublist (toLowerCase phrase) (toLowerCase story)"
  shows "extractSearchTerms story \<noteq> [] \<and>
     (\<exists>t \<in> set (js_split_char (CHR '' '') searchTerms).
         t \<noteq> [] \<and> sublist t (extractSearchTerms story)) \<and>
     (\<forall>t \<in> set (js_split_char (CHR '' '') searchTerms).
         t \<in> set (search_terms story) \<and> sublist t (extractSearchTerms story))"
proof -
  let ?ts = "js_split_char (CHR '' '') searchTerms"
  have fires: "re_test (alt_i (triggers patterns)) (toLowerCase story)"
    using assms(2,3) by (rule trigger_fires)
  have "set ?ts \<subseteq> set (foldl (apply_mapping (toLowerCase story)) [] mappings)"
    using assms(1) fires by (rule foldl_apply_mapping_covers)
  then have mem: "set ?ts \<subseteq> set (search_terms story)"
    by (auto simp: search_terms_def Let_def set_foldl_set_add)
  have all: "t \<in> set (search_terms story) \<and> sublist t (extractSearchTerms story)"
    if "t \<in> set ?ts" for t
    using that mem by (auto simp: extractSearchTerms_def intro: sublist_js_join)
  have ne: "t \<noteq> []" if "t \<in> set ?ts" for t
    using mappings_terms_nonempty assms(1) that by (auto simp: list_all_iff)
  obtain t0 where t0: "t0 \<in> set ?ts"
    using js_split_char_nonempty[of "CHR '' ''" searchTerms] by (cases ?ts) auto
  from all[OF t0] ne[OF t0] have "extractSearchTerms story \<noteq> []" by auto
  with all ne t0 show ?thesis by blast
qed

theorem expansion_coverage_witness:
  "(''late|commute|bus|streetcar|subway|ttc|train|transit|shuttle'',
      ''transit TTC service streetcar bus'') \<in> set mappings \<and>
   ''streetcar'' \<in> set (triggers ''late|commute|bus|streetcar|subway|ttc|train|transit|shuttle'') \<and>
   sublist (toLowerCase ''streetcar'') (toLowerCase ''The STREETCAR never came'') \<and>
   extractSearchTerms ''The STREETCAR never came'' \<noteq> [] \<and>
   ''transit'' \<in> set (js_split_char (CHR '' '') ''transit TTC service streetcar bus'') \<and>
   sublist ''transit'' (extractSearchTerms ''The STREETCAR never came'')"
proof -
  have a: "(''late|commute|bus|streetcar|subway|ttc|train|transit|shuttle'',
      ''transit TTC service streetcar bus'') \<in> set mappings"
    by (simp add: mappings_def)
  have b: "''streetcar'' \<in> set (triggers ''late|commute|bus|streetcar|subway|ttc|train|transit|shuttle'')"
    by code_simp
  have lo: "toLowerCase ''The STREETCAR never came'' = ''the streetcar never came''"
    and lp: "toLowerCase ''streetcar'' = ''streetcar''"
    by code_simp+
  have c: "sublist (toLowerCase ''streetcar'') (toLowerCase ''The STREETCAR never came'')"
    unfolding lo lp sublist_def by (intro exI[of _ "''the ''"] exI[of _ "'' never came''"]) simp
  have d: "''transit'' \<in> set (js_split_char (CHR '' '') ''transit TTC service streetcar bus'')"
    by code_simp
  note T = expansion_coverage[OF a b c]
  from T have e: "extractSearchTerms ''The STREETCAR never came'' \<noteq> []" by (rule conjunct1)
  from T d have f: "sublist ''transit'' (extractSearchTerms ''The STREETCAR never came'')"
    by blast
  from a b c d e f show ?thesis by (intro conjI)
qed

end
